theory Spec2Isabelle
  imports Complex_Main "HOL-Library.Word" "HOL-Library.Multiset"
begin

section \<open>Machine integers of the notebooks\<close>

type_synonym int16 = "16 word"
type_synonym int32 = "32 word"
type_synonym uint8 = "8 word"

section \<open>Floating-point arithmetic as a parameter\<close>

text \<open>
  The kernels compute on NumPy and Numba floating-point values. Their IEEE arithmetic is
  not fixed here: every function below takes the arithmetic it runs on as a first
  argument, a record of the operations the notebooks use. A theorem stated for every
  such record holds for float32 and float64 with whatever rounding the device applies,
  and for exact arithmetic as well.
  \<^item> \<open>fadd\<close>, \<open>fsub\<close>, \<open>fmul\<close>, \<open>fdiv\<close>: the operators \<open>+\<close>, \<open>-\<close>, \<open>*\<close>, \<open>/\<close>
    (true division, which returns inf or nan rather than raising on NumPy scalars);
  \<^item> \<open>fle\<close>: the comparison \<open><=\<close>;
  \<^item> \<open>of_pyint\<close>: the conversion of an integer operand (a Python int, an array
    dimension, an integer-valued literal) to the floating-point type;
  \<^item> \<open>to_int32\<close>: the conversion \<open>np.int32(v)\<close> of a floating-point value;
  \<^item> \<open>f32\<close>: the rounding \<open>np.float32(v)\<close> to single precision.
\<close>

record 'f farith =
  fadd :: "'f \<Rightarrow> 'f \<Rightarrow> 'f"
  fsub :: "'f \<Rightarrow> 'f \<Rightarrow> 'f"
  fmul :: "'f \<Rightarrow> 'f \<Rightarrow> 'f"
  fdiv :: "'f \<Rightarrow> 'f \<Rightarrow> 'f"
  fle :: "'f \<Rightarrow> 'f \<Rightarrow> bool"
  of_pyint :: "int \<Rightarrow> 'f"
  to_int32 :: "'f \<Rightarrow> int32"
  f32 :: "'f \<Rightarrow> 'f"

text \<open>
  Exact rational arithmetic, used to run the models on concrete inputs: nothing is
  rounded. On the inputs evaluated below every intermediate value is a dyadic rational
  with a few significant bits, so the IEEE operations are exact there and agree with
  this record. \<open>np.int32\<close> truncates towards zero; the values converted below are
  within the range of \<open>int32\<close>.
\<close>

definition exact_arith :: "rat farith" where
  "exact_arith = \<lparr> fadd = (+), fsub = (-), fmul = (*), fdiv = (/), fle = (\<le>),
     of_pyint = of_int,
     to_int32 = (\<lambda>v. word_of_int (if 0 \<le> v then \<lfloor>v\<rfloor> else \<lceil>v\<rceil>)),
     f32 = (\<lambda>v. v) \<rparr>"

section \<open>Launching a kernel\<close>

text \<open>
  A launch runs the kernel body once for every thread of the grid. The threads are run
  one after the other in the order of the list \<open>threads\<close>; a theorem about a launch is
  stated for every order.
\<close>

definition launch :: "('t \<Rightarrow> 's \<Rightarrow> 's) \<Rightarrow> 't list \<Rightarrow> 's \<Rightarrow> 's" where
  "launch body threads s = foldl (\<lambda>s t. body t s) s threads"

text \<open>
  \<open>cuda.atomic.add(array, index, value)\<close>: one indivisible read-modify-write of one
  element.
\<close>

definition atomic_add :: "int32 list \<Rightarrow> nat \<Rightarrow> int32 \<Rightarrow> int32 list" where
  "atomic_add array i v = array[i := array ! i + v]"

section \<open>Histogram (writing CUDA kernels, exercise)\<close>

text \<open>
  \<^verbatim>\<open>
  def cpu_histogram(x, xmin, xmax, histogram_out):
      nbins = histogram_out.shape[0]
      bin_width = (xmax - xmin) / nbins
      for element in x:
          bin_number = np.int32((element - xmin)/bin_width)
          if bin_number >= 0 and bin_number < histogram_out.shape[0]:
              # only increment if in range
              histogram_out[bin_number] += 1
  \<close>
  The notebook calls it with \<open>histogram_out = np.zeros(shape=10, dtype=np.int32)\<close>:
  the bins are signed 32-bit counters and \<open>+= 1\<close> wraps around at \<open>2^31 - 1\<close>.
  The function returns nothing; the model returns the two arrays as they are after the
  call.
\<close>

definition histogram_body :: "'f farith \<Rightarrow> 'f \<Rightarrow> 'f \<Rightarrow> int32 list \<Rightarrow> 'f \<Rightarrow> int32 list" where
  "histogram_body A xmin bin_width histogram_out element =
     (let bin_number = to_int32 A (fdiv A (fsub A element xmin) bin_width)
      in if 0 \<le> sint bin_number \<and> sint bin_number < int (length histogram_out)
         then histogram_out[nat (sint bin_number) := histogram_out ! nat (sint bin_number) + 1]
         else histogram_out)"

definition cpu_histogram ::
  "'f farith \<Rightarrow> 'f list \<Rightarrow> 'f \<Rightarrow> 'f \<Rightarrow> int32 list \<Rightarrow> 'f list \<times> int32 list" where
  "cpu_histogram A x xmin xmax histogram_out =
     (let nbins = length histogram_out;
          bin_width = fdiv A (fsub A xmax xmin) (of_pyint A (int nbins))
      in (x, foldl (histogram_body A xmin bin_width) histogram_out x))"

text \<open>
  \<^verbatim>\<open>
  @cuda.jit
  def cuda_histogram(x, xmin, xmax, histogram_out):
      nbins = histogram_out.shape[0]
      bin_width = (xmax - xmin) / nbins
      x_idx = cuda.grid(1)
      if x_idx < x.shape[0]:
          bin_number = np.int32((x[x_idx] - xmin)/bin_width)
          if bin_number >= 0 and bin_number < histogram_out.shape[0]:
              cuda.atomic.add(histogram_out, bin_number, 1)
  \<close>
  The body of one thread; \<open>x_idx\<close> is the thread's value of \<open>cuda.grid(1)\<close>.
\<close>

definition cuda_histogram ::
  "'f farith \<Rightarrow> 'f list \<Rightarrow> 'f \<Rightarrow> 'f \<Rightarrow> nat \<Rightarrow> int32 list \<Rightarrow> int32 list" where
  "cuda_histogram A x xmin xmax x_idx histogram_out =
     (let nbins = length histogram_out;
          bin_width = fdiv A (fsub A xmax xmin) (of_pyint A (int nbins))
      in if x_idx < length x
         then (let bin_number = to_int32 A (fdiv A (fsub A (x ! x_idx) xmin) bin_width)
               in if 0 \<le> sint bin_number \<and> sint bin_number < int (length histogram_out)
                  then atomic_add histogram_out (nat (sint bin_number)) 1
                  else histogram_out)
         else histogram_out)"

text \<open>
  The values of \<open>cuda.grid(1)\<close> over a one-dimensional grid of \<open>nblocks\<close> blocks of
  \<open>nthread\<close> threads: \<open>blockIdx.x * blockDim.x + threadIdx.x\<close>.
\<close>

definition grid1 :: "nat \<Rightarrow> nat \<Rightarrow> nat list" where
  "grid1 nblocks nthread =
     concat (map (\<lambda>ty. map (\<lambda>tx. tx + ty * nthread) [0..<nthread]) [0..<nblocks])"

text \<open>
  What the claims call the computed bin index of an element, whether it is in range, and
  the number of elements of \<open>x\<close> that land in bin \<open>j\<close>.
\<close>

definition bin_index :: "'f farith \<Rightarrow> 'f \<Rightarrow> 'f \<Rightarrow> nat \<Rightarrow> 'f \<Rightarrow> int32" where
  "bin_index A xmin xmax nbins element =
     to_int32 A (fdiv A (fsub A element xmin)
       (fdiv A (fsub A xmax xmin) (of_pyint A (int nbins))))"

definition bin_in_range :: "int32 \<Rightarrow> nat \<Rightarrow> bool" where
  "bin_in_range b nbins = (0 \<le> sint b \<and> sint b < int nbins)"

definition lands_in :: "'f farith \<Rightarrow> 'f \<Rightarrow> 'f \<Rightarrow> nat \<Rightarrow> nat \<Rightarrow> 'f \<Rightarrow> bool" where
  "lands_in A xmin xmax nbins j element =
     (bin_in_range (bin_index A xmin xmax nbins element) nbins
      \<and> nat (sint (bin_index A xmin xmax nbins element)) = j)"

text \<open>
  The number of elements of \<open>x\<close> whose computed bin index is in range, the number that
  land in bin \<open>j\<close>, and the total added across all bins: read as integers
  (\<open>total_added\<close>) and computed in the 32-bit arithmetic of the array
  (\<open>total_added_int32\<close>).
\<close>

definition in_range_count :: "'f farith \<Rightarrow> 'f list \<Rightarrow> 'f \<Rightarrow> 'f \<Rightarrow> nat \<Rightarrow> nat" where
  "in_range_count A x xmin xmax nbins =
     length (filter (\<lambda>e. bin_in_range (bin_index A xmin xmax nbins e) nbins) x)"

definition bin_count :: "'f farith \<Rightarrow> 'f list \<Rightarrow> 'f \<Rightarrow> 'f \<Rightarrow> nat \<Rightarrow> nat \<Rightarrow> nat" where
  "bin_count A x xmin xmax nbins j = length (filter (lands_in A xmin xmax nbins j) x)"

definition total_added :: "int32 list \<Rightarrow> int32 list \<Rightarrow> int" where
  "total_added before after = (\<Sum>j<length before. sint (after ! j) - sint (before ! j))"

definition total_added_int32 :: "int32 list \<Rightarrow> int32 list \<Rightarrow> int32" where
  "total_added_int32 before after = (\<Sum>j<length before. after ! j - before ! j)"

section \<open>Zero suppression (session 1, CUDA ufuncs and memory management)\<close>

text \<open>
  The scalar body of the ufunc, compiled with the signature \<open>int32(int16, int32)\<close>:
  \<^verbatim>\<open>
  def zero_suppress(waveform_value, threshold):
      if waveform_value < threshold:
          result = 0
      else:
          result = waveform_value
      return result
  \<close>
  The sample is a signed 16-bit value, the threshold a signed 32-bit value. The comparison
  is the signed comparison of the two, and the sample is sign-extended to the 32-bit
  result type.
\<close>

definition zero_suppress :: "int16 \<Rightarrow> int32 \<Rightarrow> int32" where
  "zero_suppress waveform_value threshold =
     (if sint waveform_value < sint threshold then 0 else scast waveform_value)"

section \<open>Mandelbrot (escape iteration count)\<close>

text \<open>
  Python's complex numbers are pairs of floating-point values (real part, imaginary
  part); product and sum are written out on the components.
\<close>

type_synonym 'f cplx = "'f \<times> 'f"

definition cmul :: "'f farith \<Rightarrow> 'f cplx \<Rightarrow> 'f cplx \<Rightarrow> 'f cplx" where
  "cmul A z w =
     (fsub A (fmul A (fst z) (fst w)) (fmul A (snd z) (snd w)),
      fadd A (fmul A (fst z) (snd w)) (fmul A (snd z) (fst w)))"

definition cadd :: "'f farith \<Rightarrow> 'f cplx \<Rightarrow> 'f cplx \<Rightarrow> 'f cplx" where
  "cadd A z w = (fadd A (fst z) (fst w), fadd A (snd z) (snd w))"

text \<open>
  \<^verbatim>\<open>
  def mandelbrot(x, y, max_iters):
      i = 0
      c = complex(x, y)
      z = 0.0j
      for i in range(max_iters):
          z = z * z + c
          if (z.real * z.real + z.imag * z.imag) >= 4:
              return i

      return 255
  \<close>
  The loop runs over \<open>range(max_iters)\<close>; \<open>mandelbrot_loop\<close> carries the loop index \<open>i\<close>
  and the number of indices left, and returns 255 when none is left. A negative
  \<open>max_iters\<close> gives an empty range.
\<close>

fun mandelbrot_loop :: "'f farith \<Rightarrow> 'f cplx \<Rightarrow> 'f cplx \<Rightarrow> nat \<Rightarrow> nat \<Rightarrow> int" where
  "mandelbrot_loop A c z i 0 = 255"
| "mandelbrot_loop A c z i (Suc n) =
     (let z' = cadd A (cmul A z z) c
      in if fle A (of_pyint A 4)
              (fadd A (fmul A (fst z') (fst z')) (fmul A (snd z') (snd z')))
         then int i
         else mandelbrot_loop A c z' (Suc i) n)"

definition mandelbrot :: "'f farith \<Rightarrow> 'f \<Rightarrow> 'f \<Rightarrow> int \<Rightarrow> int" where
  "mandelbrot A x y max_iters =
     mandelbrot_loop A (x, y) (of_pyint A 0, of_pyint A 0) 0 (nat max_iters)"

text \<open>
  The words of the claim: one update \<open>z <- z*z + c\<close>, the escape test on an iterate, and
  the iterate immediately after the update of loop index \<open>i\<close>, starting from \<open>z = 0\<close>.
\<close>

definition mandel_update :: "'f farith \<Rightarrow> 'f cplx \<Rightarrow> 'f cplx \<Rightarrow> 'f cplx" where
  "mandel_update A c z = cadd A (cmul A z z) c"

definition escaped :: "'f farith \<Rightarrow> 'f cplx \<Rightarrow> bool" where
  "escaped A z = fle A (of_pyint A 4) (fadd A (fmul A (fst z) (fst z)) (fmul A (snd z) (snd z)))"

definition iterate_after :: "'f farith \<Rightarrow> 'f \<Rightarrow> 'f \<Rightarrow> nat \<Rightarrow> 'f cplx" where
  "iterate_after A x y i = (mandel_update A (x, y) ^^ Suc i) (of_pyint A 0, of_pyint A 0)"

section \<open>Mandelbrot renderers\<close>

text \<open>
  An image is a two-dimensional \<open>uint8\<close> array: its shape and its row-major buffer, the
  element \<open>[y, x]\<close> at offset \<open>y * shape[1] + x\<close>. Storing a colour converts it to
  \<open>uint8\<close> (modulo 256, as NumPy 1.x of the notebook's Python 3.8 kernel and the device
  do). \<open>reshape\<close> keeps the buffer and raises ValueError when the sizes differ.
\<close>

datatype py_error = ZeroDivisionError | ValueError

record ndarray2 =
  shape0 :: nat
  shape1 :: nat
  pixels :: "uint8 list"

definition setitem2 :: "ndarray2 \<Rightarrow> nat \<Rightarrow> nat \<Rightarrow> int \<Rightarrow> ndarray2" where
  "setitem2 img y x color = img\<lparr>pixels := (pixels img)[y * shape1 img + x := word_of_int color]\<rparr>"

definition reshape2 :: "uint8 list \<Rightarrow> nat \<times> nat \<Rightarrow> py_error + ndarray2" where
  "reshape2 v shape =
     (if length v = fst shape * snd shape
      then Inr \<lparr>shape0 = fst shape, shape1 = snd shape, pixels = v\<rparr>
      else Inl ValueError)"

text \<open>
  \<^verbatim>\<open>
  def create_fractal(min_x, max_x, min_y, max_y, image, iters):
      height = image.shape[0]
      width = image.shape[1]

      pixel_size_x = (max_x - min_x) / width
      pixel_size_y = (max_y - min_y) / height
      for x in range(width):
          real = min_x + x * pixel_size_x
          for y in range(height):
              imag = min_y + y * pixel_size_y
              color = mandelbrot(real, imag, iters)
              image[y, x] = color
  \<close>
  The notebook passes Python floats and the dimensions are Python ints, so a division by
  a zero dimension raises ZeroDivisionError.
\<close>

definition create_fractal ::
  "'f farith \<Rightarrow> 'f \<Rightarrow> 'f \<Rightarrow> 'f \<Rightarrow> 'f \<Rightarrow> ndarray2 \<Rightarrow> int \<Rightarrow> py_error + ndarray2" where
  "create_fractal A min_x max_x min_y max_y img iters =
     (let height = shape0 img;
          width = shape1 img
      in if width = 0 then Inl ZeroDivisionError
         else let pixel_size_x = fdiv A (fsub A max_x min_x) (of_pyint A (int width))
         in if height = 0 then Inl ZeroDivisionError
         else let pixel_size_y = fdiv A (fsub A max_y min_y) (of_pyint A (int height))
         in Inr (foldl (\<lambda>img x.
                  let real = fadd A min_x (fmul A (of_pyint A (int x)) pixel_size_x)
                  in foldl (\<lambda>img y.
                       let imag = fadd A min_y (fmul A (of_pyint A (int y)) pixel_size_y);
                           color = mandelbrot A real imag iters
                       in setitem2 img y x color) img [0..<height])
                img [0..<width]))"

text \<open>
  \<open>mandelbrot_gpu\<close> is the device function with the body of \<open>mandelbrot\<close>;
  \<open>create_fractal_gpu\<close> is the body of one thread, \<open>thread\<close> its value of
  \<open>cuda.grid(2)\<close>:
  \<^verbatim>\<open>
  @cuda.jit
  def create_fractal_gpu(min_x, max_x, min_y, max_y, image, iters):
      height = image.shape[0]
      width = image.shape[1]

      pixel_size_x = (max_x - min_x) / width
      pixel_size_y = (max_y - min_y) / height

      x, y = cuda.grid(2)

      if x < width and y < height:
          real = min_x + x * pixel_size_x
          imag = min_y + y * pixel_size_y
          color = mandelbrot_gpu(real, imag, iters)
          image[y, x] = color
  \<close>
\<close>

definition mandelbrot_gpu :: "'f farith \<Rightarrow> 'f \<Rightarrow> 'f \<Rightarrow> int \<Rightarrow> int" where
  "mandelbrot_gpu A x y max_iters =
     mandelbrot_loop A (x, y) (of_pyint A 0, of_pyint A 0) 0 (nat max_iters)"

definition create_fractal_gpu ::
  "'f farith \<Rightarrow> 'f \<Rightarrow> 'f \<Rightarrow> 'f \<Rightarrow> 'f \<Rightarrow> int \<Rightarrow> nat \<times> nat \<Rightarrow> ndarray2 \<Rightarrow> ndarray2" where
  "create_fractal_gpu A min_x max_x min_y max_y iters thread img =
     (let height = shape0 img;
          width = shape1 img;
          pixel_size_x = fdiv A (fsub A max_x min_x) (of_pyint A (int width));
          pixel_size_y = fdiv A (fsub A max_y min_y) (of_pyint A (int height));
          x = fst thread;
          y = snd thread
      in if x < width \<and> y < height
         then let real = fadd A min_x (fmul A (of_pyint A (int x)) pixel_size_x);
                  imag = fadd A min_y (fmul A (of_pyint A (int y)) pixel_size_y);
                  color = mandelbrot_gpu A real imag iters
              in setitem2 img y x color
         else img)"

text \<open>The values of \<open>cuda.grid(2)\<close> over a two-dimensional grid.\<close>

definition grid2 :: "nat \<times> nat \<Rightarrow> nat \<times> nat \<Rightarrow> (nat \<times> nat) list" where
  "grid2 blockspergrid threadsperblock =
     List.product (grid1 (fst blockspergrid) (fst threadsperblock))
                  (grid1 (snd blockspergrid) (snd threadsperblock))"

text \<open>
  The ufunc, compiled with the signature
  \<open>uint8(uint32, f4, f4, f4, f4, uint32, uint32, uint32)\<close>; \<open>tid / width\<close> is Python 3's
  true division, so \<open>y\<close> is a floating-point value:
  \<^verbatim>\<open>
  @vectorize([sig], target="cuda")
  def mandel(tid, min_x, max_x, min_y, max_y, width, height, iters):
      pixel_size_x = (max_x - min_x) / width
      pixel_size_y = (max_y - min_y) / height

      x = tid % width
      y = tid / width

      real = min_x + x * pixel_size_x
      imag = min_y + y * pixel_size_y

      c = complex(real, imag)
      z = 0.0j

      for i in range(iters):
          z = z * z + c
          if (z.real * z.real + z.imag * z.imag) >= 4:
              return i
      return 255

  def create_fractal_ufunc(min_x, max_x, min_y, max_y, width, height, iters):
      tids = np.arange(width * height, dtype=np.uint32)
      return mandel(
          tids,
          np.float32(min_x), np.float32(max_x), np.float32(min_y), np.float32(max_y),
          np.uint32(height), np.uint32(width), np.uint32(iters),
      )
  \<close>
  The loop of \<open>mandel\<close> is the loop of \<open>mandelbrot\<close>. \<open>create_fractal_ufunc\<close> passes its
  \<open>height\<close> as the ufunc's \<open>width\<close> and its \<open>width\<close> as the ufunc's \<open>height\<close>; the ufunc is
  applied to every element of \<open>tids\<close>, the scalars broadcast.
\<close>

definition mandel ::
  "'f farith \<Rightarrow> 32 word \<Rightarrow> 'f \<Rightarrow> 'f \<Rightarrow> 'f \<Rightarrow> 'f \<Rightarrow> 32 word \<Rightarrow> 32 word \<Rightarrow> 32 word \<Rightarrow> uint8" where
  "mandel A tid min_x max_x min_y max_y width height iters =
     (let pixel_size_x = fdiv A (fsub A max_x min_x) (of_pyint A (uint width));
          pixel_size_y = fdiv A (fsub A max_y min_y) (of_pyint A (uint height));
          x = tid mod width;
          y = fdiv A (of_pyint A (uint tid)) (of_pyint A (uint width));
          real = fadd A min_x (fmul A (of_pyint A (uint x)) pixel_size_x);
          imag = fadd A min_y (fmul A y pixel_size_y)
      in word_of_int
           (mandelbrot_loop A (real, imag) (of_pyint A 0, of_pyint A 0) 0 (unat iters)))"

definition create_fractal_ufunc ::
  "'f farith \<Rightarrow> 'f \<Rightarrow> 'f \<Rightarrow> 'f \<Rightarrow> 'f \<Rightarrow> nat \<Rightarrow> nat \<Rightarrow> nat \<Rightarrow> uint8 list" where
  "create_fractal_ufunc A min_x max_x min_y max_y width height iters =
     (let tids = map of_nat [0..<width * height]
      in map (\<lambda>tid. mandel A tid (f32 A min_x) (f32 A max_x) (f32 A min_y) (f32 A max_y)
                     (of_nat height) (of_nat width) (of_nat iters)) tids)"

text \<open>
  The colour the renderers compute for the pixel in column \<open>x\<close> and row \<open>y\<close> of an image
  of the given height and width.
\<close>

definition pixel_colour ::
  "'f farith \<Rightarrow> 'f \<Rightarrow> 'f \<Rightarrow> 'f \<Rightarrow> 'f \<Rightarrow> nat \<Rightarrow> nat \<Rightarrow> int \<Rightarrow> nat \<Rightarrow> nat \<Rightarrow> int" where
  "pixel_colour A min_x max_x min_y max_y height width iters x y =
     mandelbrot A
       (fadd A min_x (fmul A (of_pyint A (int x))
          (fdiv A (fsub A max_x min_x) (of_pyint A (int width)))))
       (fadd A min_y (fmul A (of_pyint A (int y))
          (fdiv A (fsub A max_y min_y) (of_pyint A (int height)))))
       iters"

section \<open>Vector addition kernel (writing CUDA kernels, a first example)\<close>

text \<open>
  What a thread knows of its place in a one-dimensional launch: \<open>cuda.threadIdx.x\<close>,
  \<open>cuda.blockIdx.x\<close>, \<open>cuda.blockDim.x\<close> and \<open>cuda.gridDim.x\<close>. A launch
  \<open>kernel[grid_size, block_size]\<close> has one thread for every block and every index in
  the block.
\<close>

record thread_ctx =
  threadIdx :: nat
  blockIdx :: nat
  blockDim :: nat
  gridDim :: nat

definition grid_threads :: "nat \<Rightarrow> nat \<Rightarrow> thread_ctx list" where
  "grid_threads grid_size block_size =
     concat (map (\<lambda>ty. map (\<lambda>tx.
       \<lparr>threadIdx = tx, blockIdx = ty, blockDim = block_size, gridDim = grid_size\<rparr>)
       [0..<block_size]) [0..<grid_size])"

text \<open>
  The indices of \<open>range(start, stop, step)\<close> for a positive step. Python raises
  ValueError for a step of 0; the stride of a thread of a launch is never 0, since a
  launch with a thread has a positive block size and grid size.
\<close>

function py_range :: "nat \<Rightarrow> nat \<Rightarrow> nat \<Rightarrow> nat list" where
  "py_range start stop step =
     (if step = 0 \<or> stop \<le> start then [] else start # py_range (start + step) stop step)"
  by pat_completeness auto
termination
  by (relation "measure (\<lambda>(start, stop, step). stop - start)") auto

declare py_range.simps [simp del]

text \<open>
  \<^verbatim>\<open>
  @cuda.jit
  def add_kernel(x, y, out):
      tx = cuda.threadIdx.x # this is the unique thread ID within a 1D block
      ty = cuda.blockIdx.x  # Similarly, this is the unique block ID within the 1D grid

      block_size = cuda.blockDim.x  # number of threads per block
      grid_size = cuda.gridDim.x    # number of blocks in the grid

      start = tx + ty * block_size
      stride = block_size * grid_size

      # assuming x and y inputs are same length
      for i in range(start, x.shape[0], stride):
          out[i] = x[i] + y[i]
  \<close>
  \<open>add_loop\<close> is the loop over the indices of the range. The kernel does not check
  that \<open>y\<close> and \<open>out\<close> are as long as \<open>x\<close>; an access outside an array is undefined on
  the device and \<open>None\<close> here. The elements are of any type with an addition.
\<close>

fun add_loop :: "'a::plus list \<Rightarrow> 'a list \<Rightarrow> nat list \<Rightarrow> 'a list \<Rightarrow> 'a list option" where
  "add_loop x y [] out = Some out"
| "add_loop x y (i # rest) out =
     (if i < length x \<and> i < length y \<and> i < length out
      then add_loop x y rest (out[i := x ! i + y ! i])
      else None)"

definition add_kernel :: "thread_ctx \<Rightarrow> 'a::plus list \<Rightarrow> 'a list \<Rightarrow> 'a list \<Rightarrow> 'a list option" where
  "add_kernel t x y out =
     (let tx = threadIdx t;
          ty = blockIdx t;
          block_size = blockDim t;
          grid_size = gridDim t;
          start = tx + ty * block_size;
          stride = block_size * grid_size
      in add_loop x y (py_range start (length x) stride) out)"

text \<open>
  The same kernel written with the helpers \<open>cuda.grid(1)\<close> and \<open>cuda.gridsize(1)\<close>:
  \<^verbatim>\<open>
  @cuda.jit
  def add_kernel(x, y, out):
      start = cuda.grid(1)      # 1 = one dimensional thread grid, returns a single value
      stride = cuda.gridsize(1) # ditto

      # assuming x and y inputs are same length
      for i in range(start, x.shape[0], stride):
          out[i] = x[i] + y[i]
  \<close>
\<close>

definition cuda_grid1 :: "thread_ctx \<Rightarrow> nat" where
  "cuda_grid1 t = threadIdx t + blockIdx t * blockDim t"

definition cuda_gridsize1 :: "thread_ctx \<Rightarrow> nat" where
  "cuda_gridsize1 t = blockDim t * gridDim t"

definition add_kernel_grid :: "thread_ctx \<Rightarrow> 'a::plus list \<Rightarrow> 'a list \<Rightarrow> 'a list \<Rightarrow> 'a list option" where
  "add_kernel_grid t x y out =
     (let start = cuda_grid1 t;
          stride = cuda_gridsize1 t
      in add_loop x y (py_range start (length x) stride) out)"

text \<open>
  The output indices a thread writes, in the order it writes them, for inputs of
  length \<open>n\<close>; and a launch of a kernel whose threads can fail.
\<close>

definition written_by :: "thread_ctx \<Rightarrow> nat \<Rightarrow> nat list" where
  "written_by t n = py_range (cuda_grid1 t) n (cuda_gridsize1 t)"

definition launch_checked :: "('t \<Rightarrow> 's \<Rightarrow> 's option) \<Rightarrow> 't list \<Rightarrow> 's \<Rightarrow> 's option" where
  "launch_checked body threads s = launch (\<lambda>t r. Option.bind r (body t)) threads (Some s)"

section \<open>The vectorize decorator (exercise 1.2)\<close>

text \<open>
  \<open>@vectorize\<close> turns a scalar function into a ufunc: applied to two one-dimensional
  arrays it applies the scalar function to the elements at each index, an array of
  length 1 being broadcast against the other; arrays of other unequal lengths raise
  ValueError.
\<close>

definition vectorize2 :: "('a \<Rightarrow> 'b \<Rightarrow> 'c) \<Rightarrow> 'a list \<Rightarrow> 'b list \<Rightarrow> py_error + 'c list" where
  "vectorize2 f a b =
     (if length a = length b then Inr (map2 f a b)
      else if length a = 1 then Inr (map (f (hd a)) b)
      else if length b = 1 then Inr (map (\<lambda>x. f x (hd b)) a)
      else Inl ValueError)"

text \<open>
  \<^verbatim>\<open>
  @vectorize
  def rel_diff(x, y):
      return 2 * (x - y) / (x + y)
  \<close>
\<close>

definition rel_diff :: "'f farith \<Rightarrow> 'f \<Rightarrow> 'f \<Rightarrow> 'f" where
  "rel_diff A x y = fdiv A (fmul A (of_pyint A 2) (fsub A x y)) (fadd A x y)"

definition rel_diff_ufunc :: "'f farith \<Rightarrow> 'f list \<Rightarrow> 'f list \<Rightarrow> py_error + 'f list" where
  "rel_diff_ufunc A = vectorize2 (rel_diff A)"

section \<open>Monte Carlo estimate of pi (session 3, porting)\<close>

text \<open>
  \<^verbatim>\<open>
  @cuda.jit
  def compute_pi(rng_states, iterations, out):
      tid = cuda.grid(1)

      inside = 0
      for i in range(iterations):
          x = xoroshiro128p_uniform_float32(rng_states, tid)
          y = xoroshiro128p_uniform_float32(rng_states, tid)
          if x**2 + y**2 <= 1.0:
              inside += 1

      out[tid] = 4.0 * inside / iterations
  \<close>
  The generator is Numba's: a call reads the state of thread \<open>tid\<close>, stores the next
  state and returns a sample. It is a parameter \<open>uniform_float32\<close> from a state to the
  sample and the next state, so the theorems hold for every generator. \<open>pi_loop\<close> is the
  loop, on the state of thread \<open>tid\<close>; \<open>compute_pi\<close> is the body of thread \<open>tid\<close> and
  returns the two arrays after it, or \<open>None\<close> for an access outside an array. \<open>out\<close>
  is a float32 array.

  The kernel computes in two precisions. The samples \<open>x\<close> and \<open>y\<close> are float32, and so
  are \<open>x**2\<close>, \<open>y**2\<close> and their sum. \<open>4.0\<close> is a float64 and \<open>inside\<close> and \<open>iterations\<close>
  are integers, so \<open>4.0 * inside / iterations\<close> is computed in float64, and the store
  into \<open>out\<close> rounds it to float32. The model takes the two arithmetics apart: \<open>T\<close> is
  the arithmetic of the test \<open>x**2 + y**2 <= 1.0\<close>, \<open>A\<close> the arithmetic of the estimate
  and of its store.
\<close>

fun pi_loop :: "'f farith \<Rightarrow> ('s \<Rightarrow> 'f \<times> 's) \<Rightarrow> 's \<Rightarrow> int \<Rightarrow> nat \<Rightarrow> 's \<times> int" where
  "pi_loop T uniform_float32 s inside 0 = (s, inside)"
| "pi_loop T uniform_float32 s inside (Suc n) =
     (let (x, s1) = uniform_float32 s;
          (y, s2) = uniform_float32 s1;
          inside' = (if fle T (fadd T (fmul T x x) (fmul T y y)) (of_pyint T 1)
                     then inside + 1 else inside)
      in pi_loop T uniform_float32 s2 inside' n)"

definition compute_pi ::
  "'f farith \<Rightarrow> 'f farith \<Rightarrow> ('s \<Rightarrow> 'f \<times> 's) \<Rightarrow> nat \<Rightarrow> 's list \<Rightarrow> int \<Rightarrow> 'f list
     \<Rightarrow> ('s list \<times> 'f list) option" where
  "compute_pi T A uniform_float32 tid rng_states iterations out =
     (if (0 < iterations \<longrightarrow> tid < length rng_states) \<and> tid < length out
      then let (s, inside) = pi_loop T uniform_float32 (rng_states ! tid) 0 (nat iterations)
           in Some (if 0 < iterations then rng_states[tid := s] else rng_states,
                    out[tid := f32 A (fdiv A (fmul A (of_pyint A 4) (of_pyint A inside))
                                             (of_pyint A iterations))])
      else None)"

text \<open>
  The pairs a thread draws in \<open>n\<close> iterations from the state \<open>s\<close>, the test
  \<open>x^2 + y^2 <= 1.0\<close>, and the number of drawn pairs that satisfy it.
\<close>

fun drawn_pairs :: "('s \<Rightarrow> 'f \<times> 's) \<Rightarrow> 's \<Rightarrow> nat \<Rightarrow> ('f \<times> 'f) list" where
  "drawn_pairs uniform_float32 s 0 = []"
| "drawn_pairs uniform_float32 s (Suc n) =
     (let (x, s1) = uniform_float32 s;
          (y, s2) = uniform_float32 s1
      in (x, y) # drawn_pairs uniform_float32 s2 n)"

definition in_circle :: "'f farith \<Rightarrow> 'f \<times> 'f \<Rightarrow> bool" where
  "in_circle T p = fle T (fadd T (fmul T (fst p) (fst p)) (fmul T (snd p) (snd p))) (of_pyint T 1)"

definition inside_count :: "'f farith \<Rightarrow> ('s \<Rightarrow> 'f \<times> 's) \<Rightarrow> 's \<Rightarrow> nat \<Rightarrow> nat" where
  "inside_count T uniform_float32 s n = length (filter (in_circle T) (drawn_pairs uniform_float32 s n))"

text \<open>A generator to run the model on: the state counts the calls.\<close>

definition counting_uniform :: "nat \<Rightarrow> rat \<times> nat" where
  "counting_uniform s = (of_nat (s mod 3) / 2, Suc s)"

section \<open>Sum reduction (session 3, porting)\<close>

text \<open>
  \<^verbatim>\<open>
  @cuda.reduce
  def sum_reduce(a, b):
      return a + b
  \<close>
  The combining operation, for any element type with an addition. The reduction kernel
  generated by the decorator combines the elements of the array pairwise in a grouping
  and an order of its own: a reduction tree, whose leaves are the array's elements.
  \<open>sequential_sum\<close> is the left-to-right sum \<open>((a[0] + a[1]) + a[2]) + ...\<close> of a
  non-empty array.
\<close>

definition sum_reduce :: "'a::plus \<Rightarrow> 'a \<Rightarrow> 'a" where
  "sum_reduce a b = a + b"

datatype 'a reduction = Leaf 'a | Node "'a reduction" "'a reduction"

fun reduce_tree :: "('a \<Rightarrow> 'a \<Rightarrow> 'a) \<Rightarrow> 'a reduction \<Rightarrow> 'a" where
  "reduce_tree f (Leaf a) = a"
| "reduce_tree f (Node l r) = f (reduce_tree f l) (reduce_tree f r)"

fun leaves :: "'a reduction \<Rightarrow> 'a list" where
  "leaves (Leaf a) = [a]"
| "leaves (Node l r) = leaves l @ leaves r"

fun sequential_sum :: "'a::plus list \<Rightarrow> 'a option" where
  "sequential_sum [] = None"
| "sequential_sum (a # rest) = Some (foldl sum_reduce a rest)"

text \<open>
  The notebook reduces \<open>A = np.arange(1234, dtype=np.float64) + 1\<close>, an array of doubles.
  The doubles with an integer value are modelled by their value: \<open>F64 n\<close> is the double
  \<open>n\<close>. The sum of two of them is the exact sum rounded to 53 significant bits, to the
  nearest and to even on a tie (\<open>f64_round\<close>, with \<open>bit_length n\<close> the number of bits of
  \<open>n\<close>), and an infinity from \<open>2^1024\<close> on. The infinities and the not-a-number add as
  IEEE 754 says.
\<close>

function bit_length :: "int \<Rightarrow> nat" where
  "bit_length n = (if n \<le> 0 then 0 else Suc (bit_length (n div 2)))"
  by pat_completeness auto
termination
  by (relation "measure nat") auto

declare bit_length.simps [simp del]

definition f64_round :: "int \<Rightarrow> int" where
  "f64_round n =
     (if \<bar>n\<bar> < 2 ^ 53 then n
      else let e = bit_length \<bar>n\<bar> - 53;
               q = \<bar>n\<bar> div 2 ^ e;
               r = \<bar>n\<bar> mod 2 ^ e;
               half = 2 ^ (e - 1)
           in sgn n * (if r < half \<or> (r = half \<and> even q) then q * 2 ^ e else (q + 1) * 2 ^ e))"

datatype float64 = F64 int | PosInf | NegInf | NaN

instantiation float64 :: plus
begin

fun plus_float64 :: "float64 \<Rightarrow> float64 \<Rightarrow> float64" where
  "plus_float64 (F64 a) (F64 b) =
     (let s = f64_round (a + b)
      in if s \<le> - (2 ^ 1024) then NegInf else if 2 ^ 1024 \<le> s then PosInf else F64 s)"
| "plus_float64 NaN _ = NaN"
| "plus_float64 _ NaN = NaN"
| "plus_float64 PosInf NegInf = NaN"
| "plus_float64 NegInf PosInf = NaN"
| "plus_float64 PosInf _ = PosInf"
| "plus_float64 _ PosInf = PosInf"
| "plus_float64 NegInf _ = NegInf"
| "plus_float64 _ NegInf = NegInf"

instance ..

end

section \<open>Binary floating-point rounding (the arithmetic of the estimate of pi)\<close>

text \<open>
  IEEE 754 arithmetic computes the exact result and rounds it to the format's precision
  of \<open>p\<close> significant bits (24 for float32, 53 for float64), to the nearest
  representable value and to the even one on a tie. \<open>round_even\<close> rounds to an integer
  in that way, \<open>ilog2 x\<close> is the exponent \<open>e\<close> with \<open>2^e <= x < 2^(e+1)\<close> of a positive
  \<open>x\<close> (from \<open>bit_length\<close> above), and \<open>round_bits p\<close> rounds a rational to \<open>p\<close>
  significant bits. The exponent is not bounded: overflow to an infinity and the
  subnormal numbers are left out. The estimate of pi meets neither: its values are 0 or
  at least \<open>4 / iterations\<close>, and at most 4.
\<close>

definition round_even :: "rat \<Rightarrow> int" where
  "round_even y =
     (let f = \<lfloor>y\<rfloor>; d = y - of_int f
      in if d < 1 / 2 then f else if 1 / 2 < d then f + 1 else if even f then f else f + 1)"

definition ilog2 :: "rat \<Rightarrow> int" where
  "ilog2 x = (if 1 \<le> x then int (bit_length \<lfloor>x\<rfloor>) - 1 else - int (bit_length (\<lceil>1 / x\<rceil> - 1)))"

definition round_bits :: "nat \<Rightarrow> rat \<Rightarrow> rat" where
  "round_bits p x =
     (if x = 0 then 0
      else let u = 2 powi (ilog2 \<bar>x\<bar> - int p + 1)
           in sgn x * of_int (round_even (\<bar>x\<bar> / u)) * u)"

text \<open>
  What the bound on the estimate needs of a rounding, and every \<open>round_bits p\<close> has: on
  the non-negative numbers it is monotone, it leaves 0, 1 and 4 as they are, and four
  times a rounded value is representable.
\<close>

definition rounding :: "(rat \<Rightarrow> rat) \<Rightarrow> bool" where
  "rounding rnd =
     ((\<forall>x y. 0 \<le> x \<and> x \<le> y \<longrightarrow> rnd x \<le> rnd y)
      \<and> rnd 0 = 0 \<and> rnd 1 = 1 \<and> rnd 4 = 4
      \<and> (\<forall>x. 0 \<le> x \<longrightarrow> rnd (4 * rnd x) = 4 * rnd x))"

text \<open>
  The arithmetic whose operations round the exact result with \<open>rnd\<close> and whose
  conversion to float32 rounds with \<open>rnd32\<close>. \<open>rounded_arith (round_bits 53)
  (round_bits 24)\<close> is float64 arithmetic with a float32 store, the arithmetic of the
  estimate in \<open>compute_pi\<close>; \<open>rounded_arith (round_bits 24) (round_bits 24)\<close> is float32
  arithmetic, the arithmetic of its test; with the identity for both roundings it is
  \<open>exact_arith\<close>.
\<close>

definition rounded_arith :: "(rat \<Rightarrow> rat) \<Rightarrow> (rat \<Rightarrow> rat) \<Rightarrow> rat farith" where
  "rounded_arith rnd rnd32 =
     \<lparr> fadd = (\<lambda>a b. rnd (a + b)), fsub = (\<lambda>a b. rnd (a - b)),
       fmul = (\<lambda>a b. rnd (a * b)), fdiv = (\<lambda>a b. rnd (a / b)), fle = (\<le>),
       of_pyint = (\<lambda>k. rnd (of_int k)),
       to_int32 = (\<lambda>v. word_of_int (if 0 \<le> v then \<lfloor>v\<rfloor> else \<lceil>v\<rceil>)),
       f32 = rnd32 \<rparr>"

section \<open>Thread counters (writing CUDA kernels, atomic operations)\<close>

text \<open>
  \<^verbatim>\<open>
  @cuda.jit
  def thread_counter_race_condition(global_counter):
      global_counter[0] += 1  # This is bad

  @cuda.jit
  def thread_counter_safe(global_counter):
      cuda.atomic.add(global_counter, 0, 1)  # Safely add 1 to offset 0 in global_counter array
  \<close>
  Both are launched as \<open>kernel[64, 64](global_counter)\<close> on
  \<open>global_counter = np.array([0], dtype=np.int32)\<close>. The threads run interleaved: a
  schedule is the list of the thread ids in the order in which the device lets them take
  their next step, and running it is a launch of the step function over that list. A
  thread of \<open>thread_counter_safe\<close> has one step, the atomic addition. A thread of
  \<open>thread_counter_race_condition\<close> has two, as the notebook describes \<open>+= 1\<close>: it reads the
  counter, and in a later step writes the value read plus one. A thread that has
  finished takes no further step.
\<close>

datatype thread_pc = NotStarted | Loaded int32 | Finished

type_synonym counter_state = "int32 list \<times> thread_pc list"

definition thread_counter_safe :: "nat \<Rightarrow> counter_state \<Rightarrow> counter_state" where
  "thread_counter_safe t s =
     (let global_counter = fst s; pcs = snd s
      in if t < length pcs \<and> pcs ! t = NotStarted
         then (atomic_add global_counter 0 1, pcs[t := Finished])
         else s)"

definition thread_counter_race_condition :: "nat \<Rightarrow> counter_state \<Rightarrow> counter_state" where
  "thread_counter_race_condition t s =
     (let global_counter = fst s; pcs = snd s
      in if t < length pcs
         then (case pcs ! t of
                 NotStarted \<Rightarrow> (global_counter, pcs[t := Loaded (global_counter ! 0)])
               | Loaded v \<Rightarrow> (global_counter[0 := v + 1], pcs[t := Finished])
               | Finished \<Rightarrow> s)
         else s)"

text \<open>
  The state at the launch of \<open>nblocks\<close> blocks of \<open>nthread\<close> threads, the states in which
  every thread has finished, and the number of finished threads.
\<close>

definition initial_state :: "nat \<Rightarrow> nat \<Rightarrow> counter_state" where
  "initial_state nblocks nthread = ([0], replicate (nblocks * nthread) NotStarted)"

definition all_finished :: "counter_state \<Rightarrow> bool" where
  "all_finished s = (\<forall>p\<in>set (snd s). p = Finished)"

definition finished_count :: "thread_pc list \<Rightarrow> nat" where
  "finished_count pcs = length (filter (\<lambda>p. p = Finished) pcs)"

text \<open>
  The invariant of \<open>thread_counter_safe\<close>: the counter holds the number of finished
  threads.
\<close>

definition safe_inv :: "counter_state \<Rightarrow> bool" where
  "safe_inv s = (fst s = [of_nat (finished_count (snd s))])"

section \<open>Properties of zero suppression\<close>

lemma sint_scast_int16: "sint (scast (w :: int16) :: int32) = sint w"
  by (simp add: sint_up_scast is_up)

text \<open>
  Claim C9. For every 16-bit sample and 32-bit threshold, \<open>zero_suppress\<close> returns 0 when
  the sample is below the threshold and the sample itself (same signed value) otherwise;
  so every output is 0 or at least the threshold, and a sample above the threshold is
  returned unaltered.
\<close>

theorem zero_suppress_spec:
  "(sint waveform_value < sint threshold \<longrightarrow> zero_suppress waveform_value threshold = 0)
   \<and> (\<not> sint waveform_value < sint threshold \<longrightarrow>
        sint (zero_suppress waveform_value threshold) = sint waveform_value)
   \<and> (zero_suppress waveform_value threshold = 0
        \<or> sint threshold \<le> sint (zero_suppress waveform_value threshold))
   \<and> (sint threshold < sint waveform_value \<longrightarrow>
        sint (zero_suppress waveform_value threshold) = sint waveform_value)"
  by (simp add: zero_suppress_def sint_scast_int16)

theorem zero_suppress_spec_witness:
  "zero_suppress 3 15 = 0 \<and> sint (zero_suppress 300 15) = 300
   \<and> sint (zero_suppress (- 7) (- 20)) = - 7"
  using zero_suppress_spec [of 3 15] zero_suppress_spec [of 300 15]
    zero_suppress_spec [of "- 7" "- 20"]
  by simp

section \<open>Properties of the histogram\<close>

lemma bin_in_range_nat: "bin_in_range b n \<Longrightarrow> nat (sint b) < n"
  unfolding bin_in_range_def by linarith

lemma length_histogram_body:
  "length (histogram_body A xmin bw h e) = length h"
  by (simp add: histogram_body_def Let_def)

lemma histogram_body_bin:
  "histogram_body A xmin (fdiv A (fsub A xmax xmin) (of_pyint A (int (length h)))) h e =
     (if bin_in_range (bin_index A xmin xmax (length h) e) (length h)
      then h[nat (sint (bin_index A xmin xmax (length h) e)) :=
               h ! nat (sint (bin_index A xmin xmax (length h) e)) + 1]
      else h)"
  by (simp add: histogram_body_def bin_index_def bin_in_range_def Let_def)

lemma histogram_body_nth:
  assumes "j < length h"
  shows "histogram_body A xmin (fdiv A (fsub A xmax xmin) (of_pyint A (int (length h)))) h e ! j =
     (if lands_in A xmin xmax (length h) j e then h ! j + 1 else h ! j)"
proof (cases "bin_in_range (bin_index A xmin xmax (length h) e) (length h)")
  case True
  then have "nat (sint (bin_index A xmin xmax (length h) e)) < length h"
    by (rule bin_in_range_nat)
  with True assms show ?thesis
    by (auto simp: histogram_body_bin lands_in_def nth_list_update)
next
  case False
  then show ?thesis by (simp add: histogram_body_bin lands_in_def)
qed

lemma histogram_loop_length:
  "length (foldl (histogram_body A xmin bw) h xs) = length h"
  by (induction xs arbitrary: h) (simp_all add: length_histogram_body)

lemma histogram_loop_nth:
  assumes "j < length h" "n = length h"
  shows "foldl (histogram_body A xmin (fdiv A (fsub A xmax xmin) (of_pyint A (int n)))) h xs ! j =
     h ! j + of_nat (length (filter (lands_in A xmin xmax n j) xs))"
  using assms
proof (induction xs arbitrary: h)
  case Nil
  then show ?case by simp
next
  case (Cons e xs)
  let ?bw = "fdiv A (fsub A xmax xmin) (of_pyint A (int n))"
  have len: "length (histogram_body A xmin ?bw h e) = length h"
    by (rule length_histogram_body)
  have "foldl (histogram_body A xmin ?bw) (histogram_body A xmin ?bw h e) xs ! j =
      histogram_body A xmin ?bw h e ! j + of_nat (length (filter (lands_in A xmin xmax n j) xs))"
    using Cons.IH [of "histogram_body A xmin ?bw h e"] Cons.prems len by simp
  moreover have "histogram_body A xmin ?bw h e ! j =
      (if lands_in A xmin xmax n j e then h ! j + 1 else h ! j)"
    using histogram_body_nth [of j h A xmin xmax e] Cons.prems by simp
  ultimately show ?case by simp
qed

lemma lands_in_partition:
  "(\<Sum>j<n. length (filter (lands_in A xmin xmax n j) xs)) =
     length (filter (\<lambda>e. bin_in_range (bin_index A xmin xmax n e) n) xs)"
proof (induction xs)
  case Nil
  then show ?case by simp
next
  case (Cons e xs)
  have "(\<Sum>j<n. (if lands_in A xmin xmax n j e then 1 else 0 :: nat)) =
      (if bin_in_range (bin_index A xmin xmax n e) n then 1 else 0)"
  proof (cases "bin_in_range (bin_index A xmin xmax n e) n")
    case True
    let ?b = "nat (sint (bin_index A xmin xmax n e))"
    from True have "?b < n" by (rule bin_in_range_nat)
    moreover from True have "\<And>j. lands_in A xmin xmax n j e = (j = ?b)"
      by (auto simp: lands_in_def)
    ultimately show ?thesis using True by simp
  next
    case False
    then show ?thesis by (simp add: lands_in_def)
  qed
  moreover have "(\<Sum>j<n. length (filter (lands_in A xmin xmax n j) (e # xs))) =
      (\<Sum>j<n. (if lands_in A xmin xmax n j e then 1 else 0 :: nat))
      + (\<Sum>j<n. length (filter (lands_in A xmin xmax n j) xs))"
  proof -
    have "\<And>j. length (filter (lands_in A xmin xmax n j) (e # xs)) =
        (if lands_in A xmin xmax n j e then 1 else 0)
        + length (filter (lands_in A xmin xmax n j) xs)"
      by simp
    then show ?thesis by (simp only: sum.distrib)
  qed
  ultimately show ?case using Cons.IH by simp
qed

lemma sint_add_of_nat:
  assumes "sint (w :: int32) + int c < 2 ^ 31"
  shows "sint (w + of_nat c) = sint w + int c"
proof -
  have lo: "- (2 ^ 31) \<le> sint w"
    using sint_ge [of w] by simp
  have "w + of_nat c = word_of_int (sint w + int c)"
    by simp
  then have "sint (w + of_nat c) = signed_take_bit 31 (sint w + int c)"
    by (simp only: sint_sbintrunc') simp
  also have "\<dots> = sint w + int c"
    using assms lo by (simp add: signed_take_bit_int_eq_self_iff)
  finally show ?thesis .
qed

lemma cpu_histogram_snd:
  "snd (cpu_histogram A x xmin xmax h) =
     foldl (histogram_body A xmin (fdiv A (fsub A xmax xmin) (of_pyint A (int (length h))))) h x"
  by (simp add: cpu_histogram_def Let_def)

lemma cpu_histogram_length:
  "length (snd (cpu_histogram A x xmin xmax h)) = length h"
  by (simp add: cpu_histogram_snd histogram_loop_length)

lemma cpu_histogram_nth:
  "j < length h \<Longrightarrow>
   snd (cpu_histogram A x xmin xmax h) ! j = h ! j + of_nat (bin_count A x xmin xmax (length h) j)"
  by (simp add: cpu_histogram_snd histogram_loop_nth bin_count_def)

lemma cpu_histogram_snoc:
  "snd (cpu_histogram A (x @ [e]) xmin xmax h) =
     (let h' = snd (cpu_histogram A x xmin xmax h);
          b = bin_index A xmin xmax (length h) e
      in if bin_in_range b (length h) then h'[nat (sint b) := h' ! nat (sint b) + 1] else h')"
proof -
  let ?bw = "fdiv A (fsub A xmax xmin) (of_pyint A (int (length h)))"
  let ?h' = "foldl (histogram_body A xmin ?bw) h x"
  have len: "length ?h' = length h" by (rule histogram_loop_length)
  have "snd (cpu_histogram A (x @ [e]) xmin xmax h) = histogram_body A xmin ?bw ?h' e"
    by (simp add: cpu_histogram_snd)
  also have "\<dots> = histogram_body A xmin
      (fdiv A (fsub A xmax xmin) (of_pyint A (int (length ?h')))) ?h' e"
    by (simp only: len)
  also have "\<dots> = (if bin_in_range (bin_index A xmin xmax (length ?h') e) (length ?h')
      then ?h'[nat (sint (bin_index A xmin xmax (length ?h') e)) :=
               ?h' ! nat (sint (bin_index A xmin xmax (length ?h') e)) + 1]
      else ?h')"
    by (rule histogram_body_bin)
  finally show ?thesis by (simp add: len cpu_histogram_snd Let_def)
qed

lemma bin_count_sum:
  "(\<Sum>j<n. bin_count A x xmin xmax n j) = in_range_count A x xmin xmax n"
  by (simp add: bin_count_def in_range_count_def lands_in_partition)

lemma cpu_histogram_total_int32:
  "total_added_int32 h (snd (cpu_histogram A x xmin xmax h)) =
     of_nat (in_range_count A x xmin xmax (length h))"
proof -
  have "total_added_int32 h (snd (cpu_histogram A x xmin xmax h)) =
      (\<Sum>j<length h. of_nat (bin_count A x xmin xmax (length h) j))"
    by (simp add: total_added_int32_def cpu_histogram_nth)
  also have "\<dots> = of_nat (\<Sum>j<length h. bin_count A x xmin xmax (length h) j)"
    by simp
  finally show ?thesis by (simp only: bin_count_sum)
qed

lemma cpu_histogram_total_exact:
  assumes "\<forall>j<length h. sint (h ! j) + int (bin_count A x xmin xmax (length h) j) < 2 ^ 31"
  shows "total_added h (snd (cpu_histogram A x xmin xmax h)) =
     int (in_range_count A x xmin xmax (length h))"
proof -
  have "\<And>j. j < length h \<Longrightarrow>
      sint (snd (cpu_histogram A x xmin xmax h) ! j) - sint (h ! j) =
      int (bin_count A x xmin xmax (length h) j)"
    using assms by (simp add: cpu_histogram_nth sint_add_of_nat)
  then have "total_added h (snd (cpu_histogram A x xmin xmax h)) =
      (\<Sum>j<length h. int (bin_count A x xmin xmax (length h) j))"
    by (simp add: total_added_def)
  also have "\<dots> = int (\<Sum>j<length h. bin_count A x xmin xmax (length h) j)"
    by simp
  finally show ?thesis by (simp only: bin_count_sum)
qed


lemma bin_count_le: "bin_count A x xmin xmax n j \<le> length x"
  by (simp add: bin_count_def)

lemma set_grid1: "set (grid1 nblocks nthread) = {0..<nblocks * nthread}"
proof
  show "set (grid1 nblocks nthread) \<subseteq> {0..<nblocks * nthread}"
  proof
    fix i assume "i \<in> set (grid1 nblocks nthread)"
    then obtain ty where ty: "ty < nblocks" and i: "i < nthread + ty * nthread"
      by (auto simp: grid1_def)
    from ty have "Suc ty * nthread \<le> nblocks * nthread"
      by (intro mult_le_mono1) simp
    with i show "i \<in> {0..<nblocks * nthread}" by simp
  qed
next
  show "{0..<nblocks * nthread} \<subseteq> set (grid1 nblocks nthread)"
  proof
    fix i assume "i \<in> {0..<nblocks * nthread}"
    then have lt: "i < nblocks * nthread" by simp
    then have pos: "0 < nthread" by (cases nthread) simp_all
    have "i mod nthread < nthread" using pos by simp
    moreover have "i = i mod nthread + i div nthread * nthread" by simp
    ultimately have up: "i < nthread + i div nthread * nthread" by linarith
    have lo: "i div nthread * nthread \<le> i" by simp
    have "i div nthread < nblocks"
      using lt pos by (simp add: less_mult_imp_div_less)
    with lo up show "i \<in> set (grid1 nblocks nthread)"
      unfolding grid1_def by (auto intro!: bexI [of _ "i div nthread"])
  qed
qed

lemma cuda_histogram_body:
  "cuda_histogram A x xmin xmax i h =
     (if i < length x
      then histogram_body A xmin (fdiv A (fsub A xmax xmin) (of_pyint A (int (length h)))) h (x ! i)
      else h)"
  by (simp add: cuda_histogram_def histogram_body_def atomic_add_def Let_def)

lemma cuda_histogram_length: "length (cuda_histogram A x xmin xmax i h) = length h"
  by (simp add: cuda_histogram_body length_histogram_body)

lemma cuda_histogram_thread_nth:
  "j < length h \<Longrightarrow>
   cuda_histogram A x xmin xmax i h ! j =
     (if i < length x \<and> lands_in A xmin xmax (length h) j (x ! i) then h ! j + 1 else h ! j)"
  by (simp add: cuda_histogram_body histogram_body_nth)

lemma launch_Nil: "launch body [] s = s"
  by (simp add: launch_def)

lemma launch_Cons: "launch body (t # ts) s = launch body ts (body t s)"
  by (simp add: launch_def)

lemma launch_cuda_histogram_length:
  "length (launch (cuda_histogram A x xmin xmax) tids h) = length h"
  by (induction tids arbitrary: h) (simp_all add: launch_Nil launch_Cons cuda_histogram_length)

lemma launch_cuda_histogram_nth:
  "j < length h \<Longrightarrow> n = length h \<Longrightarrow>
   launch (cuda_histogram A x xmin xmax) tids h ! j =
     h ! j + of_nat (length (filter (\<lambda>i. i < length x \<and> lands_in A xmin xmax n j (x ! i)) tids))"
proof (induction tids arbitrary: h)
  case Nil
  then show ?case by (simp add: launch_Nil)
next
  case (Cons t tids)
  have "launch (cuda_histogram A x xmin xmax) tids (cuda_histogram A x xmin xmax t h) ! j =
      cuda_histogram A x xmin xmax t h ! j
      + of_nat (length (filter (\<lambda>i. i < length x \<and> lands_in A xmin xmax n j (x ! i)) tids))"
    using Cons.IH [of "cuda_histogram A x xmin xmax t h"] Cons.prems
    by (simp add: cuda_histogram_length)
  then show ?case
    using Cons.prems by (simp add: launch_Cons cuda_histogram_thread_nth)
qed

lemma covering_threads_count:
  assumes "distinct tids" "set tids = {0..<T}" "length x \<le> T"
  shows "length (filter (\<lambda>i. i < length x \<and> Q (x ! i)) tids) = length (filter Q x)"
proof -
  have sub: "{i. i < length x \<and> Q (x ! i)} \<subseteq> set tids"
  proof
    fix i assume "i \<in> {i. i < length x \<and> Q (x ! i)}"
    then have "i < T" using assms(3) by simp
    then show "i \<in> set tids" by (simp add: assms(2))
  qed
  have "length (filter (\<lambda>i. i < length x \<and> Q (x ! i)) tids) =
      card ({i. i < length x \<and> Q (x ! i)} \<inter> set tids)"
    using assms(1) by (rule distinct_length_filter)
  also have "{i. i < length x \<and> Q (x ! i)} \<inter> set tids = {i. i < length x \<and> Q (x ! i)}"
    using sub by (rule Int_absorb2)
  also have "card {i. i < length x \<and> Q (x ! i)} = length (filter Q x)"
    by (rule length_filter_conv_card [symmetric])
  finally show ?thesis .
qed

text \<open>
  Claim C1, as amended. For bins \<open>histogram_out\<close> (at least one) and every input \<open>x\<close>:
  processing one more element increments exactly the bin with index
  \<open>int32((element - xmin)/bin_width)\<close> when that index is in \<open>[0, nbins)\<close> and leaves the
  histogram unchanged otherwise; \<open>x\<close> is not modified; the number of bins is unchanged and
  bin \<open>j\<close> grows by the number of elements that land in it, in 32-bit arithmetic. The
  total added across all bins equals the number of in-range elements modulo \<open>2^32\<close>, and
  equals it as an integer when no bin counter passes \<open>2^31 - 1\<close>.
\<close>

theorem cpu_histogram_spec:
  assumes "0 < length histogram_out"
  shows "snd (cpu_histogram A (x @ [element]) xmin xmax histogram_out) =
       (let h' = snd (cpu_histogram A x xmin xmax histogram_out);
            b = bin_index A xmin xmax (length histogram_out) element
        in if bin_in_range b (length histogram_out)
           then h'[nat (sint b) := h' ! nat (sint b) + 1] else h')
     \<and> fst (cpu_histogram A x xmin xmax histogram_out) = x
     \<and> length (snd (cpu_histogram A x xmin xmax histogram_out)) = length histogram_out
     \<and> (\<forall>j<length histogram_out.
          snd (cpu_histogram A x xmin xmax histogram_out) ! j =
            histogram_out ! j + of_nat (bin_count A x xmin xmax (length histogram_out) j))
     \<and> total_added_int32 histogram_out (snd (cpu_histogram A x xmin xmax histogram_out)) =
          of_nat (in_range_count A x xmin xmax (length histogram_out))
     \<and> ((\<forall>j<length histogram_out.
            sint (histogram_out ! j) + int (bin_count A x xmin xmax (length histogram_out) j)
              < 2 ^ 31) \<longrightarrow>
          total_added histogram_out (snd (cpu_histogram A x xmin xmax histogram_out)) =
            int (in_range_count A x xmin xmax (length histogram_out)))"
proof (intro conjI impI)
  show "snd (cpu_histogram A (x @ [element]) xmin xmax histogram_out) =
       (let h' = snd (cpu_histogram A x xmin xmax histogram_out);
            b = bin_index A xmin xmax (length histogram_out) element
        in if bin_in_range b (length histogram_out)
           then h'[nat (sint b) := h' ! nat (sint b) + 1] else h')"
    by (rule cpu_histogram_snoc)
  show "fst (cpu_histogram A x xmin xmax histogram_out) = x"
    by (simp add: cpu_histogram_def Let_def)
  show "length (snd (cpu_histogram A x xmin xmax histogram_out)) = length histogram_out"
    by (rule cpu_histogram_length)
  show "\<forall>j<length histogram_out.
          snd (cpu_histogram A x xmin xmax histogram_out) ! j =
            histogram_out ! j + of_nat (bin_count A x xmin xmax (length histogram_out) j)"
    by (simp add: cpu_histogram_nth)
  show "total_added_int32 histogram_out (snd (cpu_histogram A x xmin xmax histogram_out)) =
          of_nat (in_range_count A x xmin xmax (length histogram_out))"
    by (rule cpu_histogram_total_int32)
next
  assume "\<forall>j<length histogram_out.
            sint (histogram_out ! j) + int (bin_count A x xmin xmax (length histogram_out) j)
              < 2 ^ 31"
  then show "total_added histogram_out (snd (cpu_histogram A x xmin xmax histogram_out)) =
            int (in_range_count A x xmin xmax (length histogram_out))"
    by (rule cpu_histogram_total_exact)
qed

theorem cpu_histogram_spec_witness:
  "snd (cpu_histogram exact_arith [1/2, 5/2, 5, - 3] 0 4 [0, 0, 0, 0]) = [1, 0, 1, 0]
   \<and> in_range_count exact_arith [1/2, 5/2, 5, - 3] 0 4 4 = 2
   \<and> total_added [0, 0, 0, 0] (snd (cpu_histogram exact_arith [1/2, 5/2, 5, - 3] 0 4 [0, 0, 0, 0])) = 2"
proof -
  let ?h = "[0, 0, 0, 0] :: int32 list"
  let ?x = "[1/2, 5/2, 5, - 3] :: rat list"
  have bins: "0 < length ?h" by simp
  have len: "length ?h = 4" by simp
  have room: "\<forall>j<4. sint (?h ! j) + int (bin_count exact_arith ?x 0 4 4 j) < 2 ^ 31"
  proof (intro allI impI)
    fix j :: nat assume "j < 4"
    then have "?h ! j = 0"
      by (simp add: nth_Cons')
    moreover have "bin_count exact_arith ?x 0 4 4 j \<le> 4"
      using bin_count_le [of exact_arith ?x 0 4 4 j] by simp
    ultimately show "sint (?h ! j) + int (bin_count exact_arith ?x 0 4 4 j) < 2 ^ 31"
      by simp
  qed
  have count: "in_range_count exact_arith ?x 0 4 4 = 2"
    by code_simp
  have hist: "snd (cpu_histogram exact_arith ?x 0 4 ?h) = [1, 0, 1, 0]"
    by code_simp
  from cpu_histogram_spec [OF bins, of exact_arith ?x "0" 0 4, unfolded len] room
  have "total_added ?h (snd (cpu_histogram exact_arith ?x 0 4 ?h)) =
      int (in_range_count exact_arith ?x 0 4 4)"
    by blast
  with count hist show ?thesis by simp
qed

text \<open>
  The claim as first stated fails where a counter wraps around: one element lands in the
  only bin, which holds \<open>2^31 - 1\<close>; the bin becomes \<open>- 2^31\<close>, so the integer total
  added is \<open>1 - 2^32\<close> for one in-range element.
\<close>

theorem cpu_histogram_total_counterexample:
  "total_added [2147483647] (snd (cpu_histogram exact_arith [0] 0 1 [2147483647]))
     \<noteq> int (in_range_count exact_arith [0] 0 1 1)"
  by code_simp

text \<open>
  Claim C10. When the grid has at least \<open>x.shape[0]\<close> threads and every thread's atomic
  addition is one sequential increment, running \<open>cuda_histogram\<close> for all threads of the
  grid, in any order, leaves exactly the histogram that \<open>cpu_histogram\<close> leaves on the
  same inputs.
\<close>

theorem cuda_histogram_refines_cpu:
  assumes "length x \<le> nblocks * nthread"
    and "distinct tids"
    and "set tids = set (grid1 nblocks nthread)"
  shows "launch (cuda_histogram A x xmin xmax) tids histogram_out =
     snd (cpu_histogram A x xmin xmax histogram_out)"
proof (rule nth_equalityI)
  show "length (launch (cuda_histogram A x xmin xmax) tids histogram_out) =
      length (snd (cpu_histogram A x xmin xmax histogram_out))"
    by (simp add: launch_cuda_histogram_length cpu_histogram_length)
next
  fix j assume "j < length (launch (cuda_histogram A x xmin xmax) tids histogram_out)"
  then have j: "j < length histogram_out"
    by (simp add: launch_cuda_histogram_length)
  have cover: "set tids = {0..<nblocks * nthread}"
    using assms(3) by (simp add: set_grid1)
  have "launch (cuda_histogram A x xmin xmax) tids histogram_out ! j =
      histogram_out ! j + of_nat (length (filter (\<lambda>i. i < length x \<and>
        lands_in A xmin xmax (length histogram_out) j (x ! i)) tids))"
    using j by (rule launch_cuda_histogram_nth) simp
  also have "length (filter (\<lambda>i. i < length x \<and>
        lands_in A xmin xmax (length histogram_out) j (x ! i)) tids) =
      bin_count A x xmin xmax (length histogram_out) j"
    unfolding bin_count_def using assms(2) cover assms(1) by (rule covering_threads_count)
  finally show "launch (cuda_histogram A x xmin xmax) tids histogram_out ! j =
      snd (cpu_histogram A x xmin xmax histogram_out) ! j"
    using j by (simp add: cpu_histogram_nth)
qed

theorem cuda_histogram_refines_cpu_witness:
  "launch (cuda_histogram exact_arith [1/2, 5/2, 5, - 3] 0 4) [5, 3, 1, 0, 2, 4] [0, 0, 0, 0] =
     snd (cpu_histogram exact_arith [1/2, 5/2, 5, - 3] 0 4 [0, 0, 0, 0])
   \<and> snd (cpu_histogram exact_arith [1/2, 5/2, 5, - 3] 0 4 [0, 0, 0, 0]) = [1, 0, 1, 0]"
proof -
  have threads: "length ([1/2, 5/2, 5, - 3] :: rat list) \<le> 2 * 3" by simp
  have order: "distinct [5, 3, 1, 0, 2, 4 :: nat]" by simp
  have cover: "set [5, 3, 1, 0, 2, 4 :: nat] = set (grid1 2 3)" by code_simp
  have "snd (cpu_histogram exact_arith [1/2, 5/2, 5, - 3] 0 4 [0, 0, 0, 0]) = [1, 0, 1, 0]"
    by code_simp
  with cuda_histogram_refines_cpu [OF threads order cover, of exact_arith 0 4 "[0, 0, 0, 0]"]
  show ?thesis by simp
qed

section \<open>Properties of the Mandelbrot iteration count\<close>

lemma mandelbrot_loop_step:
  "mandelbrot_loop A c z i (Suc n) =
     (if escaped A (mandel_update A c z) then int i
      else mandelbrot_loop A c (mandel_update A c z) (Suc i) n)"
  by (simp add: escaped_def mandel_update_def Let_def)

lemma funpow_shift: "(f ^^ Suc j) (f z) = (f ^^ Suc (Suc j)) z"
  by (simp add: funpow_swap1)

lemma mandelbrot_loop_first:
  "k < n \<Longrightarrow> escaped A ((mandel_update A c ^^ Suc k) z) \<Longrightarrow>
   (\<forall>j<k. \<not> escaped A ((mandel_update A c ^^ Suc j) z)) \<Longrightarrow>
   mandelbrot_loop A c z i n = int (i + k)"
proof (induction n arbitrary: z i k)
  case 0
  then show ?case by simp
next
  case (Suc n)
  show ?case
  proof (cases k)
    case 0
    with Suc.prems show ?thesis
      by (simp only: mandelbrot_loop_step) simp
  next
    case (Suc k')
    from Suc.prems(3) Suc have first: "\<not> escaped A (mandel_update A c z)"
      by (metis funpow_0 funpow.simps(2) o_apply zero_less_Suc)
    have "mandelbrot_loop A c (mandel_update A c z) (Suc i) n = int (Suc i + k')"
    proof (rule Suc.IH)
      show "k' < n" using Suc.prems(1) Suc by simp
      show "escaped A ((mandel_update A c ^^ Suc k') (mandel_update A c z))"
        using Suc.prems(2) Suc by (simp only: funpow_shift)
      show "\<forall>j<k'. \<not> escaped A ((mandel_update A c ^^ Suc j) (mandel_update A c z))"
      proof (intro allI impI)
        fix j assume "j < k'"
        then have "Suc j < k" using Suc by simp
        with Suc.prems(3) have "\<not> escaped A ((mandel_update A c ^^ Suc (Suc j)) z)" by blast
        then show "\<not> escaped A ((mandel_update A c ^^ Suc j) (mandel_update A c z))"
          unfolding funpow_shift .
      qed
    qed
    with first Suc show ?thesis
      by (simp only: mandelbrot_loop_step) simp
  qed
qed

lemma mandelbrot_loop_none:
  "(\<forall>j<n. \<not> escaped A ((mandel_update A c ^^ Suc j) z)) \<Longrightarrow>
   mandelbrot_loop A c z i n = 255"
proof (induction n arbitrary: z i)
  case 0
  then show ?case by simp
next
  case (Suc n)
  from Suc.prems have first: "\<not> escaped A (mandel_update A c z)"
    by (metis funpow_0 funpow.simps(2) o_apply zero_less_Suc)
  have "mandelbrot_loop A c (mandel_update A c z) (Suc i) n = 255"
  proof (rule Suc.IH, intro allI impI)
    fix j assume "j < n"
    then have "Suc j < Suc n" by simp
    with Suc.prems have "\<not> escaped A ((mandel_update A c ^^ Suc (Suc j)) z)" by blast
    then show "\<not> escaped A ((mandel_update A c ^^ Suc j) (mandel_update A c z))"
      unfolding funpow_shift .
  qed
  with first show ?case
    by (simp only: mandelbrot_loop_step) simp
qed

text \<open>
  Claim C3. For every pair \<open>(x, y)\<close> and every \<open>max_iters\<close>, \<open>mandelbrot\<close> returns the first
  loop index \<open>i < max_iters\<close> at which the iterate, immediately after the update
  \<open>z <- z*z + c\<close> with \<open>c = complex(x, y)\<close> and starting from \<open>z = 0\<close>, satisfies
  \<open>z.real^2 + z.imag^2 >= 4\<close>, and returns 255 when there is no such index below
  \<open>max_iters\<close>. It holds for every floating-point arithmetic.
\<close>

theorem mandelbrot_spec:
  "(i < nat max_iters \<and> escaped A (iterate_after A x y i)
      \<and> (\<forall>j<i. \<not> escaped A (iterate_after A x y j))
     \<longrightarrow> mandelbrot A x y max_iters = int i)
   \<and> ((\<forall>j<nat max_iters. \<not> escaped A (iterate_after A x y j))
     \<longrightarrow> mandelbrot A x y max_iters = 255)"
  unfolding mandelbrot_def iterate_after_def
  using mandelbrot_loop_first [of i "nat max_iters" A "(x, y)" "(of_pyint A 0, of_pyint A 0)" 0]
    mandelbrot_loop_none [of "nat max_iters" A "(x, y)" "(of_pyint A 0, of_pyint A 0)" 0]
  by simp


theorem mandelbrot_spec_witness:
  "mandelbrot exact_arith (- 1/2) (- 1) 4 = 3 \<and> mandelbrot exact_arith (- 1/2) (- 1/2) 4 = 255"
proof -
  have bound: "3 < nat 4" by simp
  have esc: "escaped exact_arith (iterate_after exact_arith (- 1/2) (- 1) 3)"
    by code_simp
  have before: "\<forall>j<3. \<not> escaped exact_arith (iterate_after exact_arith (- 1/2) (- 1) j)"
  proof (intro allI impI)
    fix j :: nat assume "j < 3"
    then consider "j = 0" | "j = 1" | "j = 2" by linarith
    then show "\<not> escaped exact_arith (iterate_after exact_arith (- 1/2) (- 1) j)"
      by cases (simp_all, code_simp+)
  qed
  have never: "\<forall>j<nat 4. \<not> escaped exact_arith (iterate_after exact_arith (- 1/2) (- 1/2) j)"
  proof (intro allI impI)
    fix j :: nat assume "j < nat 4"
    then consider "j = 0" | "j = 1" | "j = 2" | "j = 3" by (simp; linarith)
    then show "\<not> escaped exact_arith (iterate_after exact_arith (- 1/2) (- 1/2) j)"
      by cases (simp_all, code_simp+)
  qed
  from mandelbrot_spec [of 3 4 exact_arith "- 1/2" "- 1"] bound esc before
  have "mandelbrot exact_arith (- 1/2) (- 1) 4 = 3" by simp
  moreover from mandelbrot_spec [of 0 4 exact_arith "- 1/2" "- 1/2"] never
  have "mandelbrot exact_arith (- 1/2) (- 1/2) 4 = 255" by simp
  ultimately show ?thesis by simp
qed

section \<open>The three renderers on one viewport\<close>

lemma mandelbrot_gpu_eq: "mandelbrot_gpu A x y iters = mandelbrot A x y iters"
  by (simp add: mandelbrot_gpu_def mandelbrot_def)

lemma offset_iff:
  fixes x y w k :: nat
  assumes "x < w"
  shows "y * w + x = k \<longleftrightarrow> k mod w = x \<and> k div w = y"
proof
  assume "y * w + x = k"
  then have k: "k = x + y * w" by simp
  show "k mod w = x \<and> k div w = y" using assms by (simp add: k)
next
  assume a: "k mod w = x \<and> k div w = y"
  have "k = k div w * w + k mod w" by simp
  with a show "y * w + x = k" by simp
qed

lemma setitem2_shape:
  "shape0 (setitem2 img y x c) = shape0 img" "shape1 (setitem2 img y x c) = shape1 img"
  "length (pixels (setitem2 img y x c)) = length (pixels img)"
  by (simp_all add: setitem2_def)

lemma setitem2_nth:
  assumes "x < shape1 img" "k < length (pixels img)"
  shows "pixels (setitem2 img y x c) ! k =
     (if k mod shape1 img = x \<and> k div shape1 img = y then word_of_int c else pixels img ! k)"
proof -
  have "pixels (setitem2 img y x c) ! k =
      (if y * shape1 img + x = k then word_of_int c else pixels img ! k)"
    using assms(2) by (simp add: setitem2_def nth_list_update)
  then show ?thesis
    by (simp only: offset_iff [OF assms(1), of y k])
qed

lemma column_loop:
  assumes "x < shape1 img"
  shows "shape0 (foldl (\<lambda>img y. setitem2 img y x (c y)) img [0..<n]) = shape0 img
     \<and> shape1 (foldl (\<lambda>img y. setitem2 img y x (c y)) img [0..<n]) = shape1 img
     \<and> length (pixels (foldl (\<lambda>img y. setitem2 img y x (c y)) img [0..<n])) = length (pixels img)
     \<and> (\<forall>k<length (pixels img).
          pixels (foldl (\<lambda>img y. setitem2 img y x (c y)) img [0..<n]) ! k =
            (if k mod shape1 img = x \<and> k div shape1 img < n
             then word_of_int (c (k div shape1 img)) else pixels img ! k))"
proof (induction n)
  case 0
  then show ?case by simp
next
  case (Suc n)
  let ?img' = "foldl (\<lambda>img y. setitem2 img y x (c y)) img [0..<n]"
  from Suc have sh: "shape0 ?img' = shape0 img" "shape1 ?img' = shape1 img"
    and len: "length (pixels ?img') = length (pixels img)"
    and nth: "\<And>k. k < length (pixels img) \<Longrightarrow> pixels ?img' ! k =
        (if k mod shape1 img = x \<and> k div shape1 img < n
         then word_of_int (c (k div shape1 img)) else pixels img ! k)"
    by simp_all
  have step: "foldl (\<lambda>img y. setitem2 img y x (c y)) img [0..<Suc n] = setitem2 ?img' n x (c n)"
    by simp
  have "\<forall>k<length (pixels img). pixels (setitem2 ?img' n x (c n)) ! k =
      (if k mod shape1 img = x \<and> k div shape1 img < Suc n
       then word_of_int (c (k div shape1 img)) else pixels img ! k)"
  proof (intro allI impI)
    fix k assume k: "k < length (pixels img)"
    have "pixels (setitem2 ?img' n x (c n)) ! k =
        (if k mod shape1 img = x \<and> k div shape1 img = n then word_of_int (c n)
         else pixels ?img' ! k)"
      using setitem2_nth [of x ?img' k n "c n"] assms k by (simp add: sh len)
    then show "pixels (setitem2 ?img' n x (c n)) ! k =
      (if k mod shape1 img = x \<and> k div shape1 img < Suc n
       then word_of_int (c (k div shape1 img)) else pixels img ! k)"
      using nth [OF k] by (auto simp: less_Suc_eq)
  qed
  then show ?case
    by (simp only: step setitem2_shape sh len simp_thms)
qed


lemma image_loop:
  assumes "m \<le> shape1 img" and "length (pixels img) = shape0 img * shape1 img"
  shows "shape0 (foldl (\<lambda>im x. foldl (\<lambda>im y. setitem2 im y x (c x y)) im [0..<shape0 img])
            img [0..<m]) = shape0 img
     \<and> shape1 (foldl (\<lambda>im x. foldl (\<lambda>im y. setitem2 im y x (c x y)) im [0..<shape0 img])
            img [0..<m]) = shape1 img
     \<and> length (pixels (foldl (\<lambda>im x. foldl (\<lambda>im y. setitem2 im y x (c x y)) im
            [0..<shape0 img]) img [0..<m])) = length (pixels img)
     \<and> (\<forall>k<length (pixels img).
          pixels (foldl (\<lambda>im x. foldl (\<lambda>im y. setitem2 im y x (c x y)) im
            [0..<shape0 img]) img [0..<m]) ! k =
            (if k mod shape1 img < m
             then word_of_int (c (k mod shape1 img) (k div shape1 img)) else pixels img ! k))"
  using assms(1)
proof (induction m)
  case 0
  then show ?case by simp
next
  case (Suc m)
  let ?h = "shape0 img" and ?w = "shape1 img"
  let ?col = "\<lambda>im x. foldl (\<lambda>im y. setitem2 im y x (c x y)) im [0..<?h]"
  let ?img' = "foldl ?col img [0..<m]"
  from Suc have m: "m < ?w" by simp
  from Suc have sh: "shape0 ?img' = ?h" "shape1 ?img' = ?w"
    and len: "length (pixels ?img') = length (pixels img)"
    and nth: "\<And>k. k < length (pixels img) \<Longrightarrow> pixels ?img' ! k =
        (if k mod ?w < m then word_of_int (c (k mod ?w) (k div ?w)) else pixels img ! k)"
    by simp_all
  have step: "foldl ?col img [0..<Suc m] = ?col ?img' m" by simp
  from m have m': "m < shape1 ?img'" by (simp add: sh)
  note col = column_loop [OF m', of "c m" ?h]
  have "\<forall>k<length (pixels img). pixels (?col ?img' m) ! k =
      (if k mod ?w < Suc m then word_of_int (c (k mod ?w) (k div ?w)) else pixels img ! k)"
  proof (intro allI impI)
    fix k assume k: "k < length (pixels img)"
    then have "k < ?h * ?w" by (simp add: assms(2))
    then have row: "k div ?w < ?h" using m by (simp add: less_mult_imp_div_less)
    from col k have "pixels (?col ?img' m) ! k =
        (if k mod ?w = m \<and> k div ?w < ?h then word_of_int (c m (k div ?w))
         else pixels ?img' ! k)"
      by (simp add: sh len)
    with row nth [OF k] show "pixels (?col ?img' m) ! k =
      (if k mod ?w < Suc m then word_of_int (c (k mod ?w) (k div ?w)) else pixels img ! k)"
      by (auto simp: less_Suc_eq)
  qed
  moreover from col have "shape0 (?col ?img' m) = ?h" "shape1 (?col ?img' m) = ?w"
    "length (pixels (?col ?img' m)) = length (pixels img)"
    by (simp_all add: sh len)
  ultimately show ?case by (simp only: step simp_thms)
qed

lemma create_fractal_pixels:
  assumes "0 < shape0 img" and "0 < shape1 img"
    and "length (pixels img) = shape0 img * shape1 img"
  shows "\<exists>img'. create_fractal A min_x max_x min_y max_y img iters = Inr img'
     \<and> shape0 img' = shape0 img \<and> shape1 img' = shape1 img
     \<and> length (pixels img') = length (pixels img)
     \<and> (\<forall>k<length (pixels img). pixels img' ! k =
          word_of_int (pixel_colour A min_x max_x min_y max_y (shape0 img) (shape1 img) iters
            (k mod shape1 img) (k div shape1 img)))"
proof -
  let ?c = "pixel_colour A min_x max_x min_y max_y (shape0 img) (shape1 img) iters"
  let ?img' = "foldl (\<lambda>img' x. foldl (\<lambda>img' y. setitem2 img' y x (?c x y)) img'
      [0..<shape0 img]) img [0..<shape1 img]"
  have run: "create_fractal A min_x max_x min_y max_y img iters = Inr ?img'"
    using assms(1,2) by (simp add: create_fractal_def pixel_colour_def Let_def)
  note loop = image_loop [OF order_refl assms(3), of ?c]
  have "\<forall>k<length (pixels img). pixels ?img' ! k =
      word_of_int (?c (k mod shape1 img) (k div shape1 img))"
    using loop assms(2) by simp
  with run loop show ?thesis by simp
qed

lemma create_fractal_gpu_thread:
  "create_fractal_gpu A min_x max_x min_y max_y iters t img =
     (if fst t < shape1 img \<and> snd t < shape0 img
      then setitem2 img (snd t) (fst t)
             (pixel_colour A min_x max_x min_y max_y (shape0 img) (shape1 img) iters (fst t) (snd t))
      else img)"
  by (simp add: create_fractal_gpu_def pixel_colour_def mandelbrot_gpu_eq Let_def)

lemma create_fractal_gpu_pixels:
  assumes "0 < shape1 img" and "length (pixels img) = shape0 img * shape1 img"
  shows "shape0 (launch (create_fractal_gpu A min_x max_x min_y max_y iters) ts img) = shape0 img
     \<and> shape1 (launch (create_fractal_gpu A min_x max_x min_y max_y iters) ts img) = shape1 img
     \<and> length (pixels (launch (create_fractal_gpu A min_x max_x min_y max_y iters) ts img)) =
         length (pixels img)
     \<and> (\<forall>k<length (pixels img).
          pixels (launch (create_fractal_gpu A min_x max_x min_y max_y iters) ts img) ! k =
            (if (k mod shape1 img, k div shape1 img) \<in> set ts
             then word_of_int (pixel_colour A min_x max_x min_y max_y (shape0 img) (shape1 img)
                    iters (k mod shape1 img) (k div shape1 img))
             else pixels img ! k))"
  using assms
proof (induction ts arbitrary: img)
  case Nil
  then show ?case by (simp add: launch_Nil)
next
  case (Cons t ts)
  let ?body = "create_fractal_gpu A min_x max_x min_y max_y iters"
  let ?h = "shape0 img" and ?w = "shape1 img"
  let ?c = "pixel_colour A min_x max_x min_y max_y ?h ?w iters"
  let ?img1 = "?body t img"
  have sh1: "shape0 ?img1 = ?h" "shape1 ?img1 = ?w"
    and len1: "length (pixels ?img1) = length (pixels img)"
    by (simp_all add: create_fractal_gpu_thread setitem2_shape)
  have nth1: "\<And>k. k < length (pixels img) \<Longrightarrow> pixels ?img1 ! k =
      (if (k mod ?w, k div ?w) = t then word_of_int (?c (k mod ?w) (k div ?w))
       else pixels img ! k)"
  proof -
    fix k assume k: "k < length (pixels img)"
    then have "k < ?h * ?w" by (simp add: Cons.prems(2))
    then have row: "k div ?w < ?h" using Cons.prems(1) by (simp add: less_mult_imp_div_less)
    have col: "k mod ?w < ?w" using Cons.prems(1) by simp
    show "pixels ?img1 ! k =
      (if (k mod ?w, k div ?w) = t then word_of_int (?c (k mod ?w) (k div ?w))
       else pixels img ! k)"
    proof (cases "fst t < ?w \<and> snd t < ?h")
      case True
      then have "pixels ?img1 ! k =
          (if k mod ?w = fst t \<and> k div ?w = snd t then word_of_int (?c (fst t) (snd t))
           else pixels img ! k)"
        using setitem2_nth [of "fst t" img k "snd t"] k
        by (simp add: create_fractal_gpu_thread)
      then show ?thesis by (cases t) auto
    next
      case False
      with row col have neq: "(k mod ?w, k div ?w) \<noteq> t" by (cases t) auto
      from False have "?img1 = img" by (auto simp: create_fractal_gpu_thread)
      with neq show ?thesis by simp
    qed
  qed
  from Cons.prems have prems1: "0 < shape1 ?img1"
    "length (pixels ?img1) = shape0 ?img1 * shape1 ?img1"
    by (simp_all add: sh1 len1)
  note IH = Cons.IH [OF prems1, unfolded sh1 len1]
  have "\<forall>k<length (pixels img). pixels (launch ?body ts ?img1) ! k =
      (if (k mod ?w, k div ?w) \<in> set (t # ts)
       then word_of_int (?c (k mod ?w) (k div ?w)) else pixels img ! k)"
  proof (intro allI impI)
    fix k assume k: "k < length (pixels img)"
    from IH k have "pixels (launch ?body ts ?img1) ! k =
        (if (k mod ?w, k div ?w) \<in> set ts
         then word_of_int (?c (k mod ?w) (k div ?w)) else pixels ?img1 ! k)"
      by simp
    with nth1 [OF k] show "pixels (launch ?body ts ?img1) ! k =
      (if (k mod ?w, k div ?w) \<in> set (t # ts)
       then word_of_int (?c (k mod ?w) (k div ?w)) else pixels img ! k)"
      by auto
  qed
  with IH show ?case by (simp add: launch_Cons)
qed

lemma create_fractal_gpu_same:
  assumes "0 < shape0 img" and "0 < shape1 img"
    and "length (pixels img) = shape0 img * shape1 img"
    and "\<forall>x < shape1 img. \<forall>y < shape0 img. (x, y) \<in> set threads"
  shows "create_fractal A min_x max_x min_y max_y img iters =
     Inr (launch (create_fractal_gpu A min_x max_x min_y max_y iters) threads img)"
proof -
  let ?gpu = "launch (create_fractal_gpu A min_x max_x min_y max_y iters) threads img"
  from create_fractal_pixels [OF assms(1-3), of A min_x max_x min_y max_y iters]
  obtain img' where
    run: "create_fractal A min_x max_x min_y max_y img iters = Inr img'"
    and sh: "shape0 img' = shape0 img" "shape1 img' = shape1 img"
    and len: "length (pixels img') = length (pixels img)"
    and all: "\<forall>k<length (pixels img). pixels img' ! k =
        word_of_int (pixel_colour A min_x max_x min_y max_y (shape0 img) (shape1 img) iters
          (k mod shape1 img) (k div shape1 img))"
    by (elim exE conjE) (rule that)
  have nth: "\<And>k. k < length (pixels img) \<Longrightarrow> pixels img' ! k =
        word_of_int (pixel_colour A min_x max_x min_y max_y (shape0 img) (shape1 img) iters
          (k mod shape1 img) (k div shape1 img))"
    using all by (rule allE) (rule mp)
  note gpu = create_fractal_gpu_pixels [OF assms(2,3), of A min_x max_x min_y max_y iters threads]
  have gsh: "shape0 ?gpu = shape0 img" "shape1 ?gpu = shape1 img"
    by (rule gpu [THEN conjunct1], rule gpu [THEN conjunct2, THEN conjunct1])
  have glen: "length (pixels ?gpu) = length (pixels img)"
    by (rule gpu [THEN conjunct2, THEN conjunct2, THEN conjunct1])
  have gnth: "\<And>k. k < length (pixels img) \<Longrightarrow> pixels ?gpu ! k =
        (if (k mod shape1 img, k div shape1 img) \<in> set threads
         then word_of_int (pixel_colour A min_x max_x min_y max_y (shape0 img) (shape1 img)
                iters (k mod shape1 img) (k div shape1 img))
         else pixels img ! k)"
    using gpu [THEN conjunct2, THEN conjunct2, THEN conjunct2] by (rule allE) (rule mp)
  have "pixels img' = pixels ?gpu"
  proof (rule nth_equalityI)
    show "length (pixels img') = length (pixels ?gpu)" by (simp only: len glen)
  next
    fix k assume "k < length (pixels img')"
    then have k: "k < length (pixels img)" by (simp add: len)
    then have "k < shape0 img * shape1 img" by (simp add: assms(3))
    then have "k div shape1 img < shape0 img"
      using assms(2) by (simp add: less_mult_imp_div_less)
    moreover have "k mod shape1 img < shape1 img" using assms(2) by simp
    ultimately have "(k mod shape1 img, k div shape1 img) \<in> set threads"
      using assms(4) by blast
    then have "pixels ?gpu ! k =
        word_of_int (pixel_colour A min_x max_x min_y max_y (shape0 img) (shape1 img)
          iters (k mod shape1 img) (k div shape1 img))"
      using gnth [OF k] by (simp only: if_True)
    then show "pixels img' ! k = pixels ?gpu ! k" using nth [OF k] by (simp only:)
  qed
  then have "img' = ?gpu"
  proof (rule ndarray2.equality [rotated 2])
    show "shape0 img' = shape0 ?gpu" by (simp only: sh gsh)
    show "shape1 img' = shape1 ?gpu" by (simp only: sh gsh)
    show "ndarray2.more img' = ndarray2.more ?gpu" by simp
  qed
  with run show ?thesis by (simp only:)
qed

text \<open>
  Claim C5 says that \<open>create_fractal\<close>, \<open>create_fractal_gpu\<close> over a grid covering every
  pixel and \<open>create_fractal_ufunc\<close> (reshaped to the image shape) give the same image.
  On the viewport \<open>(-2, 1, -1, 1)\<close> with a 2 by 2 image and 4 iterations the first two
  give the pixels \<open>[0, 3, 0, 255]\<close> and the ufunc gives \<open>[0, 255, 0, 255]\<close>: at pixel
  \<open>[0, 1]\<close> the ufunc computes \<open>y = tid / width = 0.5\<close> where the other two use row 0.
  Every value computed on this input is a dyadic rational of a few bits, so exact
  arithmetic and the floating-point arithmetic of the notebook agree on it. The first
  two renderers agree on every image with at least one pixel, for every arithmetic and
  every grid that covers the image (\<open>create_fractal_gpu_same\<close> above).
\<close>

theorem create_fractal_ufunc_differs:
  "create_fractal exact_arith (- 2) 1 (- 1) 1 \<lparr>shape0 = 2, shape1 = 2, pixels = [0, 0, 0, 0]\<rparr> 4
     = Inr \<lparr>shape0 = 2, shape1 = 2, pixels = [0, 3, 0, 255]\<rparr>
   \<and> launch (create_fractal_gpu exact_arith (- 2) 1 (- 1) 1 4) (grid2 (2, 2) (2, 2))
       \<lparr>shape0 = 2, shape1 = 2, pixels = [0, 0, 0, 0]\<rparr>
     = \<lparr>shape0 = 2, shape1 = 2, pixels = [0, 3, 0, 255]\<rparr>
   \<and> reshape2 (create_fractal_ufunc exact_arith (- 2) 1 (- 1) 1 2 2 4) (2, 2)
     = Inr \<lparr>shape0 = 2, shape1 = 2, pixels = [0, 255, 0, 255]\<rparr>"
  by code_simp

section \<open>Properties of the vector addition kernel\<close>

lemma add_kernel_written_by:
  "add_kernel t x y out = add_loop x y (written_by t (length x)) out"
  by (simp add: add_kernel_def written_by_def cuda_grid1_def cuda_gridsize1_def Let_def)

lemma add_kernel_grid_eq: "add_kernel_grid t x y out = add_kernel t x y out"
  by (simp add: add_kernel_grid_def add_kernel_written_by written_by_def Let_def)

lemma range_shift_iff:
  assumes "0 < (step::nat)"
  shows "(start + step \<le> i \<and> (i - (start + step)) mod step = 0) \<longleftrightarrow>
     (start \<le> i \<and> i \<noteq> start \<and> (i - start) mod step = 0)"
proof
  assume a: "start + step \<le> i \<and> (i - (start + step)) mod step = 0"
  then have "i - start = (i - (start + step)) + step" by simp
  then have "(i - start) mod step = (i - (start + step)) mod step"
    by (metis mod_add_self2)
  with a show "start \<le> i \<and> i \<noteq> start \<and> (i - start) mod step = 0"
    using assms by simp
next
  assume a: "start \<le> i \<and> i \<noteq> start \<and> (i - start) mod step = 0"
  then have pos: "0 < i - start" by simp
  from a have "step dvd (i - start)" by (simp add: mod_eq_0_iff_dvd)
  then have "step \<le> i - start" using pos by (rule dvd_imp_le)
  then have ge: "start + step \<le> i" using a by linarith
  then have "i - start = (i - (start + step)) + step" by simp
  then have "(i - start) mod step = (i - (start + step)) mod step"
    by (metis mod_add_self2)
  with a ge show "start + step \<le> i \<and> (i - (start + step)) mod step = 0" by simp
qed

lemma set_py_range:
  "0 < step \<Longrightarrow>
   set (py_range start stop step) = {i. start \<le> i \<and> i < stop \<and> (i - start) mod step = 0}"
proof (induction start stop step rule: py_range.induct)
  case (1 start stop step)
  show ?case
  proof (cases "stop \<le> start")
    case True
    then have "py_range start stop step = []"
      by (simp add: py_range.simps [of start stop step])
    moreover from True have "{i. start \<le> i \<and> i < stop \<and> (i - start) mod step = 0} = {}"
      by auto
    ultimately show ?thesis by simp
  next
    case False
    with 1 have IH: "set (py_range (start + step) stop step) =
        {i. start + step \<le> i \<and> i < stop \<and> (i - (start + step)) mod step = 0}"
      by simp
    from False "1.prems" have unfold:
      "py_range start stop step = start # py_range (start + step) stop step"
      by (simp add: py_range.simps [of start stop step])
    show ?thesis
    proof (rule set_eqI)
      fix i
      have "i \<in> set (py_range start stop step) \<longleftrightarrow>
          i = start \<or> (start + step \<le> i \<and> i < stop \<and> (i - (start + step)) mod step = 0)"
        by (simp only: unfold IH set_simps insert_iff mem_Collect_eq)
      also have "\<dots> \<longleftrightarrow>
          i = start \<or> (start \<le> i \<and> i \<noteq> start \<and> i < stop \<and> (i - start) mod step = 0)"
        using range_shift_iff [OF "1.prems", of start i] by meson
      also have "\<dots> \<longleftrightarrow> start \<le> i \<and> i < stop \<and> (i - start) mod step = 0"
        using False by auto
      finally show "i \<in> set (py_range start stop step) \<longleftrightarrow>
          i \<in> {i. start \<le> i \<and> i < stop \<and> (i - start) mod step = 0}"
        by simp
    qed
  qed
qed

lemma distinct_py_range: "0 < step \<Longrightarrow> distinct (py_range start stop step)"
proof (induction start stop step rule: py_range.induct)
  case (1 start stop step)
  show ?case
  proof (cases "stop \<le> start")
    case True
    then show ?thesis by (simp add: py_range.simps [of start stop step])
  next
    case False
    with 1 have "distinct (py_range (start + step) stop step)" by simp
    moreover have "start \<notin> set (py_range (start + step) stop step)"
      using "1.prems" by (simp add: set_py_range)
    ultimately show ?thesis
      using False "1.prems" by (simp add: py_range.simps [of start stop step])
  qed
qed

lemma mem_py_range_mod:
  assumes "0 < step" "start < step"
  shows "i \<in> set (py_range start stop step) \<longleftrightarrow> i < stop \<and> i mod step = start"
proof -
  have "(start \<le> i \<and> (i - start) mod step = 0) \<longleftrightarrow> i mod step = start"
  proof
    assume a: "start \<le> i \<and> (i - start) mod step = 0"
    then have "step dvd (i - start)" by (simp add: mod_eq_0_iff_dvd)
    then obtain k where k: "i - start = step * k" by (rule dvdE)
    with a have "i = start + step * k" by linarith
    then show "i mod step = start" using assms(2) by simp
  next
    assume a: "i mod step = start"
    then have le: "start \<le> i" by (metis mod_less_eq_dividend)
    have "i = i mod step + step * (i div step)" by simp
    with a have "i - start = step * (i div step)" by linarith
    then have "(i - start) mod step = 0" by simp
    with le show "start \<le> i \<and> (i - start) mod step = 0" by simp
  qed
  then show ?thesis using assms(1) by (auto simp: set_py_range)
qed


lemma add_loop_result:
  "\<forall>i\<in>set idxs. i < length x \<and> i < length y \<and> i < length out \<Longrightarrow>
   \<exists>out'. add_loop x y idxs out = Some out' \<and> length out' = length out
     \<and> (\<forall>j. out' ! j = (if j \<in> set idxs then x ! j + y ! j else out ! j))"
proof (induction idxs arbitrary: out)
  case Nil
  then show ?case by simp
next
  case (Cons i rest)
  let ?out1 = "out[i := x ! i + y ! i]"
  from Cons.prems have i: "i < length x" "i < length y" "i < length out" by simp_all
  from Cons.prems have "\<forall>k\<in>set rest. k < length x \<and> k < length y \<and> k < length ?out1"
    by simp
  from Cons.IH [OF this] obtain out' where
    run: "add_loop x y rest ?out1 = Some out'" and len: "length out' = length ?out1"
    and nth: "\<And>j. out' ! j = (if j \<in> set rest then x ! j + y ! j else ?out1 ! j)"
    by blast
  have "add_loop x y (i # rest) out = Some out'" using i run by simp
  moreover have "length out' = length out" using len by simp
  moreover have "\<forall>j. out' ! j = (if j \<in> set (i # rest) then x ! j + y ! j else out ! j)"
  proof
    fix j
    show "out' ! j = (if j \<in> set (i # rest) then x ! j + y ! j else out ! j)"
    proof (cases "j = i")
      case True
      then show ?thesis using nth [of j] i by simp
    next
      case False
      then show ?thesis using nth [of j] by simp
    qed
  qed
  ultimately show ?case by blast
qed

lemma launch_None: "launch (\<lambda>t r. Option.bind r (body t)) threads None = None"
  by (induction threads) (simp_all add: launch_def)

lemma launch_checked_Nil: "launch_checked body [] s = Some s"
  by (simp add: launch_checked_def launch_def)

lemma launch_checked_Cons:
  "launch_checked body (t # threads) s =
     (case body t s of None \<Rightarrow> None | Some s' \<Rightarrow> launch_checked body threads s')"
proof (cases "body t s")
  case None
  then show ?thesis
    using launch_None [of body threads] by (simp add: launch_checked_def launch_def)
next
  case (Some s')
  then show ?thesis by (simp add: launch_checked_def launch_def)
qed

lemma launch_add_kernel_result:
  "\<forall>t\<in>set threads. \<forall>i\<in>set (written_by t (length x)).
      i < length x \<and> i < length y \<and> i < length out \<Longrightarrow>
   \<exists>out'. launch_checked (\<lambda>t. add_kernel t x y) threads out = Some out'
     \<and> length out' = length out
     \<and> (\<forall>j. out' ! j = (if \<exists>t\<in>set threads. j \<in> set (written_by t (length x))
                          then x ! j + y ! j else out ! j))"
proof (induction threads arbitrary: out)
  case Nil
  then show ?case by (simp add: launch_checked_Nil)
next
  case (Cons t threads)
  from Cons.prems have "\<forall>i\<in>set (written_by t (length x)).
      i < length x \<and> i < length y \<and> i < length out" by simp
  from add_loop_result [OF this] obtain out1 where
    run1: "add_kernel t x y out = Some out1" and len1: "length out1 = length out"
    and nth1: "\<And>j. out1 ! j =
      (if j \<in> set (written_by t (length x)) then x ! j + y ! j else out ! j)"
    unfolding add_kernel_written_by by blast
  from Cons.prems len1 have "\<forall>t\<in>set threads. \<forall>i\<in>set (written_by t (length x)).
      i < length x \<and> i < length y \<and> i < length out1" by simp
  from Cons.IH [OF this] obtain out' where
    run: "launch_checked (\<lambda>t. add_kernel t x y) threads out1 = Some out'"
    and len: "length out' = length out1"
    and nth: "\<And>j. out' ! j = (if \<exists>t\<in>set threads. j \<in> set (written_by t (length x))
                          then x ! j + y ! j else out1 ! j)"
    by blast
  have "launch_checked (\<lambda>t. add_kernel t x y) (t # threads) out = Some out'"
    using run1 run by (simp add: launch_checked_Cons)
  moreover have "length out' = length out" using len len1 by simp
  moreover have "\<forall>j. out' ! j =
      (if \<exists>u\<in>set (t # threads). j \<in> set (written_by u (length x))
       then x ! j + y ! j else out ! j)"
  proof
    fix j
    show "out' ! j = (if \<exists>u\<in>set (t # threads). j \<in> set (written_by u (length x))
       then x ! j + y ! j else out ! j)"
      using nth [of j] nth1 [of j] by auto
  qed
  ultimately show ?case by blast
qed

lemma in_grid_threads:
  "t \<in> set (grid_threads grid_size block_size) \<longleftrightarrow>
     threadIdx t < block_size \<and> blockIdx t < grid_size
     \<and> blockDim t = block_size \<and> gridDim t = grid_size"
  by (cases t) (fastforce simp: grid_threads_def)

lemma grid_thread_start_less:
  assumes "t \<in> set (grid_threads grid_size block_size)"
  shows "cuda_grid1 t < cuda_gridsize1 t" and "cuda_gridsize1 t = block_size * grid_size"
proof -
  from assms have tx: "threadIdx t < block_size" and ty: "blockIdx t < grid_size"
    and dims: "blockDim t = block_size" "gridDim t = grid_size"
    by (simp_all add: in_grid_threads)
  from ty have "Suc (blockIdx t) * block_size \<le> grid_size * block_size"
    by (intro mult_le_mono1) simp
  with tx have "threadIdx t + blockIdx t * block_size < block_size * grid_size"
    by (simp add: mult.commute)
  then show "cuda_grid1 t < cuda_gridsize1 t"
    by (simp add: cuda_grid1_def cuda_gridsize1_def dims)
  show "cuda_gridsize1 t = block_size * grid_size"
    by (simp add: cuda_gridsize1_def dims)
qed

lemma grid_thread_written:
  assumes "t \<in> set (grid_threads grid_size block_size)"
  shows "i \<in> set (written_by t n) \<longleftrightarrow> i < n \<and> i mod (block_size * grid_size) = cuda_grid1 t"
proof -
  have lt: "cuda_grid1 t < cuda_gridsize1 t" using assms by (rule grid_thread_start_less)
  then have pos: "0 < cuda_gridsize1 t" by simp
  have size: "cuda_gridsize1 t = block_size * grid_size"
    using assms by (rule grid_thread_start_less)
  show ?thesis
    unfolding written_by_def using mem_py_range_mod [OF pos lt, of i n] by (simp add: size)
qed

lemma grid_thread_inj:
  assumes "t \<in> set (grid_threads grid_size block_size)"
    and "u \<in> set (grid_threads grid_size block_size)"
    and "cuda_grid1 t = cuda_grid1 u"
  shows "t = u"
proof -
  from assms(1) have t: "threadIdx t < block_size" "blockDim t = block_size" "gridDim t = grid_size"
    by (simp_all add: in_grid_threads)
  from assms(2) have u: "threadIdx u < block_size" "blockDim u = block_size" "gridDim u = grid_size"
    by (simp_all add: in_grid_threads)
  from assms(3) have eq: "threadIdx t + blockIdx t * block_size = threadIdx u + blockIdx u * block_size"
    by (simp add: cuda_grid1_def t u)
  have "(threadIdx t + blockIdx t * block_size) mod block_size = threadIdx t"
    using t(1) by simp
  moreover have "(threadIdx u + blockIdx u * block_size) mod block_size = threadIdx u"
    using u(1) by simp
  ultimately have tx: "threadIdx t = threadIdx u" using eq by simp
  have "(threadIdx t + blockIdx t * block_size) div block_size = blockIdx t"
    using t(1) by simp
  moreover have "(threadIdx u + blockIdx u * block_size) div block_size = blockIdx u"
    using u(1) by simp
  ultimately have ty: "blockIdx t = blockIdx u" using eq by simp
  show ?thesis using tx ty t u by simp
qed

lemma grid_thread_exists:
  assumes "0 < block_size * grid_size"
  shows "\<exists>t\<in>set (grid_threads grid_size block_size). cuda_grid1 t = i mod (block_size * grid_size)"
proof -
  let ?s = "i mod (block_size * grid_size)"
  let ?t = "\<lparr>threadIdx = ?s mod block_size, blockIdx = ?s div block_size,
             blockDim = block_size, gridDim = grid_size\<rparr>"
  from assms have b: "0 < block_size" by simp
  have "?s < block_size * grid_size" using assms by simp
  then have "?s div block_size < grid_size"
    using b by (simp add: less_mult_imp_div_less mult.commute)
  then have "?t \<in> set (grid_threads grid_size block_size)"
    using b by (simp add: in_grid_threads)
  moreover have "cuda_grid1 ?t = ?s" by (simp add: cuda_grid1_def)
  ultimately show ?thesis by blast
qed


text \<open>
  Claim C2. For arrays \<open>x\<close> and \<open>y\<close> of equal length (and \<open>out\<close> at least as long) and a
  launch with stride \<open>block_size * grid_size >= 1\<close>, running \<open>add_kernel\<close> (in either of
  its two forms) once for every thread of the grid, in any order, succeeds and sets
  \<open>out[i] = x[i] + y[i]\<close> for every \<open>i < x.shape[0]\<close>. A thread writes index \<open>i\<close> exactly
  when its start is \<open>i mod stride\<close>, so every index is written by exactly one thread and
  distinct threads write disjoint sets of indices.
\<close>

theorem add_kernel_spec:
  assumes "length y = length x"
    and "length x \<le> length out"
    and "1 \<le> block_size * grid_size"
    and "distinct threads"
    and "set threads = set (grid_threads grid_size block_size)"
  shows "\<exists>out'. launch_checked (\<lambda>t. add_kernel t x y) threads out = Some out'
     \<and> launch_checked (\<lambda>t. add_kernel_grid t x y) threads out = Some out'
     \<and> length out' = length out
     \<and> (\<forall>i<length x. out' ! i = x ! i + y ! i)
     \<and> (\<forall>i<length x. \<forall>t\<in>set threads.
          i \<in> set (written_by t (length x)) \<longleftrightarrow>
            cuda_grid1 t = i mod (block_size * grid_size))
     \<and> (\<forall>i<length x. \<exists>!t. t \<in> set threads \<and> i \<in> set (written_by t (length x)))
     \<and> (\<forall>t\<in>set threads. \<forall>u\<in>set threads. t \<noteq> u \<longrightarrow>
          set (written_by t (length x)) \<inter> set (written_by u (length x)) = {})"
proof -
  let ?G = "set (grid_threads grid_size block_size)"
  let ?n = "length x"
  let ?stride = "block_size * grid_size"
  have pos: "0 < ?stride" using assms(3) by simp
  have written: "\<And>t i. t \<in> ?G \<Longrightarrow>
      i \<in> set (written_by t ?n) \<longleftrightarrow> i < ?n \<and> i mod ?stride = cuda_grid1 t"
    by (rule grid_thread_written)
  have bounds: "\<forall>t\<in>set threads. \<forall>i\<in>set (written_by t ?n).
      i < length x \<and> i < length y \<and> i < length out"
    using written assms(1,2,5) by auto
  from launch_add_kernel_result [OF bounds] obtain out' where
    run: "launch_checked (\<lambda>t. add_kernel t x y) threads out = Some out'"
    and len: "length out' = length out"
    and nth: "\<And>j. out' ! j = (if \<exists>t\<in>set threads. j \<in> set (written_by t ?n)
                          then x ! j + y ! j else out ! j)"
    by blast
  have same: "(\<lambda>t. add_kernel_grid t x y) = (\<lambda>t. add_kernel t x y)"
    by (rule ext, rule ext) (rule add_kernel_grid_eq)
  have run_grid: "launch_checked (\<lambda>t. add_kernel_grid t x y) threads out = Some out'"
    using run by (simp only: same)
  have owner: "\<forall>i<?n. \<forall>t\<in>set threads.
      i \<in> set (written_by t ?n) \<longleftrightarrow> cuda_grid1 t = i mod ?stride"
    using written assms(5) by auto
  have all: "\<forall>i<?n. out' ! i = x ! i + y ! i"
  proof (intro allI impI)
    fix i assume i: "i < ?n"
    from grid_thread_exists [OF pos, of i] obtain t where
      "t \<in> ?G" "cuda_grid1 t = i mod ?stride" by blast
    with i written [of t i] have "\<exists>t\<in>set threads. i \<in> set (written_by t ?n)"
      using assms(5) by auto
    then show "out' ! i = x ! i + y ! i" using nth [of i] by simp
  qed
  have unique: "\<forall>i<?n. \<exists>!t. t \<in> set threads \<and> i \<in> set (written_by t ?n)"
  proof (intro allI impI)
    fix i assume i: "i < ?n"
    from grid_thread_exists [OF pos, of i] obtain t where
      t: "t \<in> ?G" "cuda_grid1 t = i mod ?stride" by blast
    show "\<exists>!t. t \<in> set threads \<and> i \<in> set (written_by t ?n)"
    proof (rule ex1I [of _ t])
      show "t \<in> set threads \<and> i \<in> set (written_by t ?n)"
        using t i written [of t i] assms(5) by simp
    next
      fix u assume "u \<in> set threads \<and> i \<in> set (written_by u ?n)"
      then have u: "u \<in> ?G" "cuda_grid1 u = i mod ?stride"
        using written [of u i] assms(5) by auto
      show "u = t" using u(1) t(1) by (rule grid_thread_inj) (simp add: u t)
    qed
  qed
  have disjoint: "\<forall>t\<in>set threads. \<forall>u\<in>set threads. t \<noteq> u \<longrightarrow>
      set (written_by t ?n) \<inter> set (written_by u ?n) = {}"
  proof (intro ballI impI)
    fix t u assume tu: "t \<in> set threads" "u \<in> set threads" "t \<noteq> u"
    show "set (written_by t ?n) \<inter> set (written_by u ?n) = {}"
    proof (rule ccontr)
      assume "set (written_by t ?n) \<inter> set (written_by u ?n) \<noteq> {}"
      then obtain i where "i \<in> set (written_by t ?n)" "i \<in> set (written_by u ?n)" by blast
      then have "cuda_grid1 t = cuda_grid1 u"
        using written [of t i] written [of u i] tu assms(5) by simp
      with tu assms(5) have "t = u" using grid_thread_inj [of t grid_size block_size u] by simp
      with tu(3) show False by simp
    qed
  qed
  from run run_grid len all owner unique disjoint show ?thesis by blast
qed

theorem add_kernel_spec_witness:
  "\<exists>out'. launch_checked
        (\<lambda>t. add_kernel t [1, 2, 3, 4, 5, 6, 7, 8 :: int] [10, 20, 30, 40, 50, 60, 70, 80])
        (rev (grid_threads 1 3)) [0, 0, 0, 0, 0, 0, 0, 0] = Some out'
      \<and> out' = [11, 22, 33, 44, 55, 66, 77, 88] \<and> out' ! 3 = 44"
proof -
  let ?x = "[1, 2, 3, 4, 5, 6, 7, 8] :: int list"
  let ?y = "[10, 20, 30, 40, 50, 60, 70, 80] :: int list"
  let ?out = "[0, 0, 0, 0, 0, 0, 0, 0] :: int list"
  have a1: "length ?y = length ?x" by simp
  have a2: "length ?x \<le> length ?out" by simp
  have a3: "1 \<le> (3::nat) * 1" by simp
  have a4: "distinct (rev (grid_threads 1 3))" by code_simp
  have a5: "set (rev (grid_threads 1 3)) = set (grid_threads 1 3)" by simp
  from add_kernel_spec [OF a1 a2 a3 a4 a5] obtain out' where
    run: "launch_checked (\<lambda>t. add_kernel t ?x ?y) (rev (grid_threads 1 3)) ?out = Some out'"
    and all: "\<forall>i<length ?x. out' ! i = ?x ! i + ?y ! i"
    by blast
  from all have "out' ! 3 = ?x ! 3 + ?y ! 3" by simp
  then have third: "out' ! 3 = 44" by simp
  have "launch_checked (\<lambda>t. add_kernel t ?x ?y) (rev (grid_threads 1 3)) ?out
      = Some [11, 22, 33, 44, 55, 66, 77, 88]"
    by code_simp
  with run have "out' = [11, 22, 33, 44, 55, 66, 77, 88]" by simp
  with run third show ?thesis by blast
qed

section \<open>Properties of the vectorized relative difference\<close>

text \<open>
  Claim C8. For arrays \<open>a\<close> and \<open>b\<close> of equal length the ufunc \<open>rel_diff\<close> returns an array
  of the same length whose \<open>i\<close>-th element is the scalar body applied to \<open>a[i]\<close> and
  \<open>b[i]\<close>, that is \<open>2 * (a[i] - b[i]) / (a[i] + b[i])\<close>, in every floating-point
  arithmetic.
\<close>

theorem rel_diff_elementwise:
  assumes "length a = length b"
  shows "\<exists>r. rel_diff_ufunc A a b = Inr r \<and> length r = length a
     \<and> (\<forall>i<length a. r ! i = rel_diff A (a ! i) (b ! i))
     \<and> (\<forall>i<length a. r ! i =
          fdiv A (fmul A (of_pyint A 2) (fsub A (a ! i) (b ! i))) (fadd A (a ! i) (b ! i)))"
  using assms by (simp add: rel_diff_ufunc_def vectorize2_def rel_diff_def)

theorem rel_diff_elementwise_witness:
  "rel_diff_ufunc exact_arith [0, 1, 2, 3] [1, 3, 5, 7] = Inr [- 2, - 1, - (6 / 7), - (4 / 5)]"
proof -
  have "length [0, 1, 2, 3 :: rat] = length [1, 3, 5, 7 :: rat]" by simp
  from rel_diff_elementwise [OF this, of exact_arith] obtain r where
    r: "rel_diff_ufunc exact_arith [0, 1, 2, 3] [1, 3, 5, 7] = Inr r"
    and len: "length r = length [0, 1, 2, 3 :: rat]"
    and nth: "\<forall>i<length [0, 1, 2, 3 :: rat]. r ! i =
        rel_diff exact_arith ([0, 1, 2, 3] ! i) ([1, 3, 5, 7] ! i)"
    by blast
  have "r = [r ! 0, r ! 1, r ! 2, r ! 3]"
    using len by (auto simp: list_eq_iff_nth_eq less_Suc_eq numeral_eq_Suc nth_Cons')
  also have "\<dots> = [- 2, - 1, - (6 / 7), - (4 / 5)]"
    using nth by (simp add: rel_diff_def exact_arith_def)
  finally show ?thesis using r by simp
qed

section \<open>Properties of the estimate of pi\<close>

lemma length_drawn_pairs: "length (drawn_pairs u s n) = n"
  by (induction n arbitrary: s) (simp_all add: Let_def split: prod.splits)

lemma inside_count_le: "inside_count T u s n \<le> n"
proof -
  have "inside_count T u s n \<le> length (drawn_pairs u s n)"
    unfolding inside_count_def by (rule length_filter_le)
  then show ?thesis by (simp add: length_drawn_pairs)
qed

lemma pi_loop_inside:
  "snd (pi_loop T u s inside n) = inside + int (inside_count T u s n)"
proof (induction n arbitrary: s inside)
  case 0
  then show ?case by (simp add: inside_count_def)
next
  case (Suc n)
  obtain x s1 where d1: "u s = (x, s1)" by (cases "u s")
  obtain y s2 where d2: "u s1 = (y, s2)" by (cases "u s1")
  show ?case
    using Suc.IH [of s2] d1 d2
    by (simp add: inside_count_def in_circle_def)
qed

lemma compute_pi_value:
  assumes "tid < length rng_states" and "tid < length out" and "1 \<le> iterations"
  shows "\<exists>rng' out'. compute_pi T A u tid rng_states iterations out = Some (rng', out')
     \<and> length out' = length out
     \<and> out' ! tid = f32 A (fdiv A (fmul A (of_pyint A 4)
          (of_pyint A (int (inside_count T u (rng_states ! tid) (nat iterations)))))
          (of_pyint A iterations))
     \<and> (\<forall>j<length out. j \<noteq> tid \<longrightarrow> out' ! j = out ! j)"
proof -
  obtain s inside where loop: "pi_loop T u (rng_states ! tid) 0 (nat iterations) = (s, inside)"
    by (cases "pi_loop T u (rng_states ! tid) 0 (nat iterations)")
  have "inside = int (inside_count T u (rng_states ! tid) (nat iterations))"
    using pi_loop_inside [of T u "rng_states ! tid" 0 "nat iterations"] loop by simp
  then show ?thesis
    using assms loop by (simp add: compute_pi_def)
qed

text \<open>
  The roundings: \<open>bit_length\<close> and \<open>ilog2\<close> bracket their argument between two powers
  of two, \<open>round_even\<close> is monotone and leaves the integers as they are, and so
  \<open>round_bits p\<close> is monotone, leaves every number of at most \<open>p\<close> significant bits as
  it is, and its values have at most \<open>p\<close> significant bits.
\<close>

lemma bit_length_bounds:
  "0 < n \<Longrightarrow> 2 ^ (bit_length n - 1) \<le> n \<and> n < 2 ^ bit_length n"
proof (induction n rule: bit_length.induct)
  case (1 n)
  show ?case
  proof (cases "n = 1")
    case True
    have "bit_length 1 = 1"
      by (simp add: bit_length.simps [of 1] bit_length.simps [of 0])
    with True show ?thesis by simp
  next
    case False
    with "1.prems" have half: "0 < n div 2" by simp
    with "1.IH" "1.prems" have IH: "2 ^ (bit_length (n div 2) - 1) \<le> n div 2"
      "n div 2 < 2 ^ bit_length (n div 2)" by simp_all
    have pos: "0 < bit_length (n div 2)"
      using half by (simp add: bit_length.simps [of "n div 2"])
    have bl: "bit_length n = Suc (bit_length (n div 2))"
      using "1.prems" by (simp add: bit_length.simps [of n])
    from pos have "(2::int) ^ bit_length (n div 2) = 2 * 2 ^ (bit_length (n div 2) - 1)"
      by (cases "bit_length (n div 2)") simp_all
    with IH(1) have lo: "2 ^ bit_length (n div 2) \<le> n" by linarith
    from IH(2) have "n div 2 + 1 \<le> 2 ^ bit_length (n div 2)" by simp
    then have hi: "n < 2 * 2 ^ bit_length (n div 2)" by linarith
    from lo hi show ?thesis by (simp add: bl)
  qed
qed


lemma ilog2_bounds:
  assumes "0 < x"
  shows "2 powi ilog2 x \<le> x \<and> x < 2 powi (ilog2 x + 1)"
proof (cases "1 \<le> x")
  case True
  let ?n = "\<lfloor>x\<rfloor>" and ?m = "bit_length \<lfloor>x\<rfloor>"
  from True have n: "0 < ?n" by simp
  from bit_length_bounds [OF n] have lo: "2 ^ (?m - 1) \<le> ?n" and hi: "?n < 2 ^ ?m"
    by simp_all
  from n have m: "0 < ?m" by (simp add: bit_length.simps [of ?n])
  have e: "ilog2 x = int (?m - 1)" using True m by (simp add: ilog2_def)
  have "(of_int (2 ^ (?m - 1)) :: rat) \<le> of_int ?n" using lo by (simp only: of_int_le_iff)
  also have "\<dots> \<le> x" by simp
  finally have l: "2 powi ilog2 x \<le> x" by (simp add: e)
  from hi have "?n + 1 \<le> 2 ^ ?m" by simp
  then have "(of_int (?n + 1) :: rat) \<le> of_int (2 ^ ?m)" by (simp only: of_int_le_iff)
  moreover have "x < of_int (?n + 1)" by linarith
  ultimately have "x < 2 ^ ?m" by simp
  moreover have "ilog2 x + 1 = int ?m" using e m by simp
  ultimately have "x < 2 powi (ilog2 x + 1)" by simp
  with l show ?thesis by simp
next
  case False
  define y where "y = 1 / x"
  define n where "n = \<lceil>y\<rceil> - 1"
  define m where "m = bit_length n"
  from False assms have y: "1 < y" by (simp add: y_def)
  then have "1 < \<lceil>y\<rceil>" by (simp add: less_ceiling_iff)
  then have n: "0 < n" by (simp add: n_def)
  from bit_length_bounds [OF n] have lo: "2 ^ (m - 1) \<le> n" and hi: "n < 2 ^ m"
    by (simp_all add: m_def)
  from n have m: "0 < m" by (simp add: m_def bit_length.simps [of n])
  have e: "ilog2 x = - int m" using False by (simp add: ilog2_def m_def n_def y_def)
  have ny: "of_int n < y" "y \<le> of_int n + 1"
    unfolding n_def by linarith+
  from hi have "n + 1 \<le> 2 ^ m" by simp
  then have "(of_int (n + 1) :: rat) \<le> of_int (2 ^ m)" by (simp only: of_int_le_iff)
  then have "(of_int n + 1 :: rat) \<le> 2 ^ m" by simp
  with ny(2) have "y \<le> 2 ^ m" by linarith
  then have "1 \<le> 2 ^ m * x" using assms by (simp add: y_def field_simps)
  then have "1 / 2 ^ m \<le> x" by (simp add: field_simps)
  then have l: "2 powi ilog2 x \<le> x" by (simp add: e power_int_minus_divide)
  have "(of_int (2 ^ (m - 1)) :: rat) \<le> of_int n" using lo by (simp only: of_int_le_iff)
  then have "(2 ^ (m - 1) :: rat) \<le> of_int n" by simp
  with ny(1) have "2 ^ (m - 1) < y" by linarith
  then have "2 ^ (m - 1) * x < 1" using assms by (simp add: y_def field_simps)
  then have "x < 1 / 2 ^ (m - 1)" by (simp add: field_simps)
  moreover have "ilog2 x + 1 = - int (m - 1)" using e m by simp
  ultimately have "x < 2 powi (ilog2 x + 1)" by (simp add: power_int_minus_divide)
  with l show ?thesis by simp
qed

lemma ilog2_unique:
  assumes "2 powi e \<le> x" and "x < 2 powi (e + 1)"
  shows "ilog2 x = e"
proof -
  have "(0::rat) < 2 powi e" by simp
  with assms(1) have pos: "0 < x" by linarith
  note b = ilog2_bounds [OF pos]
  have "\<not> ilog2 x < e"
  proof
    assume "ilog2 x < e"
    then have "ilog2 x + 1 \<le> e" by simp
    then have "(2::rat) powi (ilog2 x + 1) \<le> 2 powi e" by (intro power_int_increasing) simp_all
    with b assms(1) show False by linarith
  qed
  moreover have "\<not> e < ilog2 x"
  proof
    assume "e < ilog2 x"
    then have "e + 1 \<le> ilog2 x" by simp
    then have "(2::rat) powi (e + 1) \<le> 2 powi ilog2 x" by (intro power_int_increasing) simp_all
    with b assms(2) show False by linarith
  qed
  ultimately show ?thesis by linarith
qed

lemma round_even_of_int: "round_even (of_int n) = n"
  by (simp add: round_even_def)

lemma round_even_range: "\<lfloor>y\<rfloor> \<le> round_even y \<and> round_even y \<le> \<lfloor>y\<rfloor> + 1"
  by (simp add: round_even_def Let_def)

lemma round_even_mono:
  assumes "y \<le> z"
  shows "round_even y \<le> round_even z"
proof (cases "\<lfloor>y\<rfloor> = \<lfloor>z\<rfloor>")
  case True
  from assms have "y - of_int \<lfloor>z\<rfloor> \<le> z - of_int \<lfloor>z\<rfloor>" by simp
  then show ?thesis
    by (simp add: round_even_def Let_def True)
next
  case False
  from assms have "\<lfloor>y\<rfloor> \<le> \<lfloor>z\<rfloor>" by (rule floor_mono)
  with False have "\<lfloor>y\<rfloor> + 1 \<le> \<lfloor>z\<rfloor>" by simp
  with round_even_range [of y] round_even_range [of z] show ?thesis by linarith
qed

lemma round_even_ge: "of_int n \<le> y \<Longrightarrow> n \<le> round_even y"
  using round_even_mono [of "of_int n" y] by (simp add: round_even_of_int)

lemma round_even_le: "y \<le> of_int n \<Longrightarrow> round_even y \<le> n"
  using round_even_mono [of y "of_int n"] by (simp add: round_even_of_int)


lemma pow2_split: "(2::rat) powi (a + b) = 2 powi a * 2 powi b"
  by (simp add: power_int_add)

lemma scaled_range:
  assumes "0 < x" and "0 < p"
  shows "2 ^ (p - 1) \<le> x / 2 powi (ilog2 x - int p + 1)
     \<and> x / 2 powi (ilog2 x - int p + 1) < 2 ^ p"
proof -
  let ?e = "ilog2 x"
  let ?u = "(2::rat) powi (?e - int p + 1)"
  have u: "0 < ?u" by simp
  from ilog2_bounds [OF assms(1)] have lo: "2 powi ?e \<le> x" and hi: "x < 2 powi (?e + 1)"
    by simp_all
  have "2 powi ?e = (2::rat) powi (int (p - 1) + (?e - int p + 1))"
    using assms(2) by (intro arg_cong [where f = "\<lambda>k. 2 powi k"]) simp
  then have e1: "2 powi ?e = 2 ^ (p - 1) * ?u" by (simp only: pow2_split power_int_of_nat)
  have "2 powi (?e + 1) = (2::rat) powi (int p + (?e - int p + 1))"
    by (intro arg_cong [where f = "\<lambda>k. 2 powi k"]) simp
  then have e2: "2 powi (?e + 1) = 2 ^ p * ?u" by (simp only: pow2_split power_int_of_nat)
  from lo e1 have "2 ^ (p - 1) * ?u \<le> x" by simp
  then have a: "2 ^ (p - 1) \<le> x / ?u" using u by (simp add: pos_le_divide_eq)
  from hi e2 have "x < 2 ^ p * ?u" by simp
  then have b: "x / ?u < 2 ^ p" using u by (simp add: pos_divide_less_eq)
  from a b show ?thesis by simp
qed

lemma round_bits_pos:
  "0 < x \<Longrightarrow> round_bits p x =
     of_int (round_even (x / 2 powi (ilog2 x - int p + 1))) * 2 powi (ilog2 x - int p + 1)"
  by (simp add: round_bits_def Let_def)

lemma mantissa_range:
  assumes "0 < x" and "0 < p"
  shows "2 ^ (p - 1) \<le> round_even (x / 2 powi (ilog2 x - int p + 1))
     \<and> round_even (x / 2 powi (ilog2 x - int p + 1)) \<le> 2 ^ p"
proof -
  let ?q = "x / 2 powi (ilog2 x - int p + 1)"
  from scaled_range [OF assms] have "of_int (2 ^ (p - 1)) \<le> ?q" "?q \<le> of_int (2 ^ p)"
    by simp_all
  then show ?thesis by (simp only: round_even_ge round_even_le simp_thms)
qed

lemma round_bits_bounds:
  assumes "0 < x" and "0 < p"
  shows "2 powi ilog2 x \<le> round_bits p x \<and> round_bits p x \<le> 2 powi (ilog2 x + 1)"
proof -
  let ?e = "ilog2 x"
  let ?u = "(2::rat) powi (?e - int p + 1)"
  let ?n = "round_even (x / ?u)"
  have u: "0 < ?u" by simp
  from mantissa_range [OF assms] have n: "2 ^ (p - 1) \<le> ?n" "?n \<le> 2 ^ p" by simp_all
  have "2 powi ?e = (2::rat) powi (int (p - 1) + (?e - int p + 1))"
    using assms(2) by (intro arg_cong [where f = "\<lambda>k. 2 powi k"]) simp
  then have e1: "2 powi ?e = 2 ^ (p - 1) * ?u" by (simp only: pow2_split power_int_of_nat)
  have "2 powi (?e + 1) = (2::rat) powi (int p + (?e - int p + 1))"
    by (intro arg_cong [where f = "\<lambda>k. 2 powi k"]) simp
  then have e2: "2 powi (?e + 1) = 2 ^ p * ?u" by (simp only: pow2_split power_int_of_nat)
  from n(1) have "(of_int (2 ^ (p - 1)) :: rat) \<le> of_int ?n" by (simp only: of_int_le_iff)
  then have "2 ^ (p - 1) * ?u \<le> of_int ?n * ?u" using u by simp
  then have a: "2 powi ?e \<le> round_bits p x"
    by (simp only: e1 round_bits_pos [OF assms(1)])
  from n(2) have "(of_int ?n :: rat) \<le> of_int (2 ^ p)" by (simp only: of_int_le_iff)
  then have "of_int ?n * ?u \<le> 2 ^ p * ?u" using u by simp
  then have b: "round_bits p x \<le> 2 powi (?e + 1)"
    by (simp only: e2 round_bits_pos [OF assms(1)])
  from a b show ?thesis by simp
qed

lemma ilog2_mono:
  assumes "0 < x" and "x \<le> y"
  shows "ilog2 x \<le> ilog2 y"
proof (rule ccontr)
  assume "\<not> ilog2 x \<le> ilog2 y"
  then have "ilog2 y + 1 \<le> ilog2 x" by simp
  then have "(2::rat) powi (ilog2 y + 1) \<le> 2 powi ilog2 x"
    by (intro power_int_increasing) simp_all
  moreover from assms have "0 < y" by simp
  ultimately show False
    using ilog2_bounds [OF assms(1)] ilog2_bounds [OF \<open>0 < y\<close>] assms(2) by linarith
qed

lemma round_bits_zero: "round_bits p 0 = 0"
  by (simp add: round_bits_def)

lemma round_bits_mono:
  assumes "0 \<le> x" and "x \<le> y" and "0 < p"
  shows "round_bits p x \<le> round_bits p y"
proof (cases "x = 0")
  case True
  show ?thesis
  proof (cases "y = 0")
    case True
    with \<open>x = 0\<close> show ?thesis by simp
  next
    case False
    with assms True have y: "0 < y" by simp
    have "(0::rat) < 2 powi ilog2 y" by simp
    with round_bits_bounds [OF y assms(3)] have "0 \<le> round_bits p y" by linarith
    with True show ?thesis by (simp add: round_bits_zero)
  qed
next
  case False
  with assms have x: "0 < x" and y: "0 < y" by simp_all
  from ilog2_mono [OF x assms(2)] have le: "ilog2 x \<le> ilog2 y" .
  show ?thesis
  proof (cases "ilog2 x = ilog2 y")
    case True
    let ?u = "(2::rat) powi (ilog2 y - int p + 1)"
    have u: "0 < ?u" by simp
    from assms(2) u have "x / ?u \<le> y / ?u" by (simp add: divide_right_mono)
    then have "round_even (x / ?u) \<le> round_even (y / ?u)" by (rule round_even_mono)
    then have "(of_int (round_even (x / ?u)) :: rat) \<le> of_int (round_even (y / ?u))"
      by (simp only: of_int_le_iff)
    then have "of_int (round_even (x / ?u)) * ?u \<le> of_int (round_even (y / ?u)) * ?u"
      using u by simp
    then show ?thesis
      by (simp only: round_bits_pos [OF x] round_bits_pos [OF y] True)
  next
    case False
    with le have "ilog2 x + 1 \<le> ilog2 y" by simp
    then have "(2::rat) powi (ilog2 x + 1) \<le> 2 powi ilog2 y"
      by (intro power_int_increasing) simp_all
    with round_bits_bounds [OF x assms(3)] round_bits_bounds [OF y assms(3)]
    show ?thesis by linarith
  qed
qed

lemma round_bits_representable:
  assumes "0 < p" and "2 ^ (p - 1) \<le> n" and "n < 2 ^ p"
  shows "round_bits p (of_int n * 2 powi k) = of_int n * 2 powi k"
proof -
  let ?x = "(of_int n :: rat) * 2 powi k"
  have k: "(0::rat) < 2 powi k" by simp
  have "(0::int) < 2 ^ (p - 1)" by simp
  with assms(2) have npos: "0 < n" by linarith
  then have x: "0 < ?x" by simp
  have "(2::rat) powi (k + int p - 1) = 2 powi (int (p - 1) + k)"
    using assms(1) by (intro arg_cong [where f = "\<lambda>k. 2 powi k"]) simp
  then have e1: "(2::rat) powi (k + int p - 1) = 2 ^ (p - 1) * 2 powi k"
    by (simp only: pow2_split power_int_of_nat)
  have "(2::rat) powi (k + int p - 1 + 1) = 2 powi (int p + k)"
    by (intro arg_cong [where f = "\<lambda>k. 2 powi k"]) simp
  then have e2: "(2::rat) powi (k + int p - 1 + 1) = 2 ^ p * 2 powi k"
    by (simp only: pow2_split power_int_of_nat)
  from assms(2) have "(of_int (2 ^ (p - 1)) :: rat) \<le> of_int n" by (simp only: of_int_le_iff)
  then have "2 ^ (p - 1) * 2 powi k \<le> ?x" using k by simp
  then have lo: "2 powi (k + int p - 1) \<le> ?x" by (simp only: e1)
  from assms(3) have "(of_int n :: rat) < of_int (2 ^ p)" by (simp only: of_int_less_iff)
  then have "?x < 2 ^ p * 2 powi k" using k by simp
  then have hi: "?x < 2 powi (k + int p - 1 + 1)" by (simp only: e2)
  from lo hi have e: "ilog2 ?x = k + int p - 1" by (rule ilog2_unique)
  have u: "ilog2 ?x - int p + 1 = k" by (simp add: e)
  have "?x / 2 powi k = of_int n" by simp
  then show ?thesis
    by (simp only: round_bits_pos [OF x] u round_even_of_int)
qed

lemma round_bits_closed:
  assumes "0 < p" and "0 \<le> x"
  shows "round_bits p (4 * round_bits p x) = 4 * round_bits p x"
proof (cases "x = 0")
  case True
  then show ?thesis by (simp add: round_bits_zero)
next
  case False
  with assms have x: "0 < x" by simp
  let ?k = "ilog2 x - int p + 1"
  let ?n = "round_even (x / 2 powi ?k)"
  from mantissa_range [OF x assms(1)] have n: "2 ^ (p - 1) \<le> ?n" "?n \<le> 2 ^ p" by simp_all
  have r: "round_bits p x = of_int ?n * 2 powi ?k" by (rule round_bits_pos [OF x])
  have four: "(4::rat) = 2 powi 2" by simp
  show ?thesis
  proof (cases "?n = 2 ^ p")
    case True
    have "(2::rat) ^ p = 2 ^ (p - 1) * 2"
      using assms(1) by (cases p) simp_all
    then have "4 * round_bits p x = of_int (2 ^ (p - 1)) * (2 powi 1 * 2 powi 2 * 2 powi ?k)"
      by (simp add: r True)
    also have "2 powi 1 * 2 powi 2 * (2::rat) powi ?k = 2 powi (1 + 2 + ?k)"
      by (simp only: pow2_split)
    finally have form: "4 * round_bits p x = of_int (2 ^ (p - 1)) * 2 powi (1 + 2 + ?k)" .
    have "(2::int) ^ (p - 1) < 2 ^ p" using assms(1) by simp
    from round_bits_representable [OF assms(1) order_refl this, of "1 + 2 + ?k"]
    show ?thesis by (simp only: form)
  next
    case False
    with n(2) have lt: "?n < 2 ^ p" by simp
    have "4 * round_bits p x = of_int ?n * (2 powi 2 * 2 powi ?k)"
      by (simp add: r)
    also have "2 powi 2 * (2::rat) powi ?k = 2 powi (2 + ?k)" by (simp only: pow2_split)
    finally have form: "4 * round_bits p x = of_int ?n * 2 powi (2 + ?k)" .
    from round_bits_representable [OF assms(1) n(1) lt, of "2 + ?k"]
    show ?thesis by (simp only: form)
  qed
qed

lemma round_bits_one: "0 < p \<Longrightarrow> round_bits p 1 = 1"
proof -
  assume p: "0 < p"
  have "(2::int) ^ (p - 1) < 2 ^ p" using p by simp
  from round_bits_representable [OF p order_refl this, of "- int (p - 1)"]
  show ?thesis by (simp add: power_int_minus_divide)
qed

lemma round_bits_four: "0 < p \<Longrightarrow> round_bits p 4 = 4"
  using round_bits_closed [of p 1] by (simp add: round_bits_one)

lemma rounding_round_bits:
  assumes "0 < p"
  shows "rounding (round_bits p)"
  unfolding rounding_def
proof (intro conjI allI impI)
  fix x y :: rat assume "0 \<le> x \<and> x \<le> y"
  then show "round_bits p x \<le> round_bits p y" using assms by (simp add: round_bits_mono)
next
  show "round_bits p 0 = 0" by (rule round_bits_zero)
  show "round_bits p 1 = 1" using assms by (rule round_bits_one)
  show "round_bits p 4 = 4" using assms by (rule round_bits_four)
next
  fix x :: rat assume "0 \<le> x"
  with assms show "round_bits p (4 * round_bits p x) = 4 * round_bits p x"
    by (rule round_bits_closed)
qed

lemma rounding_mono:
  assumes "rounding rnd" and "0 \<le> x" and "x \<le> y"
  shows "rnd x \<le> rnd y"
proof -
  from assms(1) have "\<forall>x y. 0 \<le> x \<and> x \<le> y \<longrightarrow> rnd x \<le> rnd y"
    unfolding rounding_def by (rule conjunct1)
  with assms(2,3) show ?thesis by blast
qed

lemma rounding_consts:
  assumes "rounding rnd"
  shows "rnd 0 = 0" and "rnd 1 = 1" and "rnd 4 = 4"
proof -
  from assms have c: "rnd 0 = 0 \<and> rnd 1 = 1 \<and> rnd 4 = 4
      \<and> (\<forall>x. 0 \<le> x \<longrightarrow> rnd (4 * rnd x) = 4 * rnd x)"
    unfolding rounding_def by (rule conjunct2)
  from c show "rnd 0 = 0" by (rule conjunct1)
  from c show "rnd 1 = 1" by (elim conjE)
  from c show "rnd 4 = 4" by (elim conjE)
qed

lemma rounding_closed:
  assumes "rounding rnd" and "0 \<le> x"
  shows "rnd (4 * rnd x) = 4 * rnd x"
proof -
  from assms(1) have "\<forall>x. 0 \<le> x \<longrightarrow> rnd (4 * rnd x) = 4 * rnd x"
    unfolding rounding_def by (elim conjE)
  with assms(2) show ?thesis by blast
qed

lemma rounding_nonneg:
  assumes "rounding rnd" and "0 \<le> x"
  shows "0 \<le> rnd x"
proof -
  have "rnd 0 \<le> rnd x" using assms(1) order_refl assms(2) by (rule rounding_mono)
  then show ?thesis by (simp only: rounding_consts(1) [OF assms(1)])
qed

lemma rounded_quotient_bounds:
  assumes r: "rounding rnd" and r32: "rounding rnd32"
    and k: "int k \<le> n" and n: "1 \<le> n"
  shows "0 \<le> rnd32 (rnd (rnd (4 * rnd (of_int (int k))) / rnd (of_int n)))
     \<and> rnd32 (rnd (rnd (4 * rnd (of_int (int k))) / rnd (of_int n))) \<le> 4"
proof -
  define a where "a = rnd (of_int (int k))"
  define b where "b = rnd (of_int n)"
  define m where "m = rnd (4 * a)"
  define q where "q = rnd (m / b)"
  note four = rounding_consts(3) [OF r] and one = rounding_consts(2) [OF r]
  note four32 = rounding_consts(3) [OF r32]
  have kq: "(0::rat) \<le> of_int (int k)" by simp
  have nq: "(1::rat) \<le> of_int n" using n by simp
  have nq0: "(0::rat) \<le> 1" by simp
  have kn: "(of_int (int k) :: rat) \<le> of_int n"
    using k by (simp only: of_int_le_iff)
  have a0: "0 \<le> a" unfolding a_def using r kq by (rule rounding_nonneg)
  have "rnd 1 \<le> b" unfolding b_def using r nq0 nq by (rule rounding_mono)
  then have b1: "1 \<le> b" by (simp only: one)
  have ab: "a \<le> b" unfolding a_def b_def using r kq kn by (rule rounding_mono)
  have a4: "0 \<le> 4 * a" using a0 by simp
  have ab4: "4 * a \<le> 4 * b" using ab by simp
  have m0: "0 \<le> m" unfolding m_def using r a4 by (rule rounding_nonneg)
  have "m \<le> rnd (4 * b)" unfolding m_def using r a4 ab4 by (rule rounding_mono)
  also have "rnd (4 * b) = 4 * b"
    unfolding b_def using r order_trans [OF nq0 nq] by (rule rounding_closed)
  finally have mb: "m \<le> 4 * b" .
  have bpos: "0 < b" using b1 by simp
  have q0: "0 \<le> m / b" using m0 bpos by (rule divide_nonneg_pos)
  have q4: "m / b \<le> 4" using mb bpos by (simp only: pos_divide_le_eq)
  have Q0: "0 \<le> q" unfolding q_def using r q0 by (rule rounding_nonneg)
  have "q \<le> rnd 4" unfolding q_def using r q0 q4 by (rule rounding_mono)
  then have Q4: "q \<le> 4" by (simp only: four)
  have lo: "0 \<le> rnd32 q" using r32 Q0 by (rule rounding_nonneg)
  have "rnd32 q \<le> rnd32 4" using r32 Q0 Q4 by (rule rounding_mono)
  then have hi: "rnd32 q \<le> 4" by (simp only: four32)
  from lo hi have "0 \<le> rnd32 q \<and> rnd32 q \<le> 4" by (rule conjI)
  then show ?thesis unfolding q_def m_def a_def b_def .
qed

lemma rounding_id: "rounding (\<lambda>x. x)"
  by (simp add: rounding_def)

lemma rounded_arith_id: "rounded_arith (\<lambda>x. x) (\<lambda>x. x) = exact_arith"
  by (simp add: rounded_arith_def exact_arith_def)

text \<open>
  The test depends on the arithmetic: float32 counts the pair
  \<open>(1 - 2^-24, 3 * 2^-13)\<close>, whose sum of squares \<open>1 + 2^-26 + 2^-48\<close> is above 1 and
  is rounded to 1. The number \<open>inside\<close> is therefore the number of drawn pairs that
  pass the test in the arithmetic \<open>T\<close> of the test.
\<close>

lemma in_circle_float32_example:
  "in_circle (rounded_arith (round_bits 24) (round_bits 24)) (1 - 1 / 2 ^ 24, 3 / 2 ^ 13)
   \<and> (1 - 1 / 2 ^ 24) * (1 - 1 / 2 ^ 24) + (3 / 2 ^ 13) * (3 / 2 ^ 13) = (1 + 1 / 2 ^ 26 + 1 / 2 ^ 48 :: rat)"
proof
  show "in_circle (rounded_arith (round_bits 24) (round_bits 24)) (1 - 1 / 2 ^ 24, 3 / 2 ^ 13)"
    by code_simp
  show "(1 - 1 / 2 ^ 24) * (1 - 1 / 2 ^ 24) + (3 / 2 ^ 13) * (3 / 2 ^ 13)
      = (1 + 1 / 2 ^ 26 + 1 / 2 ^ 48 :: rat)"
    by simp
qed

text \<open>
  Claim C6. For every array of generator states, every thread id inside the arrays and
  every \<open>iterations >= 1\<close>, \<open>compute_pi\<close> writes \<open>out[tid] = 4.0 * inside / iterations\<close>,
  where \<open>inside\<close> is the number of the thread's \<open>iterations\<close> drawn pairs with
  \<open>x^2 + y^2 <= 1.0\<close>; \<open>0 <= inside <= iterations\<close>, and the entry lies in \<open>[0, 4]\<close>.

  The statement is about the floating-point computation. The test is evaluated in any
  arithmetic \<open>T\<close>, float32 among them. The estimate is computed in any arithmetic whose
  operations round the exact result with a rounding \<open>rnd\<close> and whose store rounds with
  a rounding \<open>rnd32\<close>: the conversions of \<open>inside\<close> and \<open>iterations\<close>, the product with
  \<open>4.0\<close> and the quotient are rounded by \<open>rnd\<close>, and the stored value by \<open>rnd32\<close>. The
  IEEE roundings \<open>round_bits 53\<close> of float64 and \<open>round_bits 24\<close> of float32 are such
  roundings (\<open>rounding_round_bits\<close>), and so is the identity (\<open>rounding_id\<close>), for which
  the entry is the exact quotient \<open>4 * inside / iterations\<close>.
\<close>

theorem compute_pi_spec:
  assumes "rounding rnd" and "rounding rnd32"
    and "tid < length rng_states" and "tid < length out" and "1 \<le> iterations"
  shows "\<exists>rng' out'.
       compute_pi T (rounded_arith rnd rnd32) u tid rng_states iterations out = Some (rng', out')
     \<and> out' ! tid =
         rnd32 (rnd (rnd (4 * rnd (of_int
             (int (inside_count T u (rng_states ! tid) (nat iterations)))))
           / rnd (of_int iterations)))
     \<and> inside_count T u (rng_states ! tid) (nat iterations) \<le> nat iterations
     \<and> 0 \<le> out' ! tid \<and> out' ! tid \<le> 4
     \<and> (\<forall>j<length out. j \<noteq> tid \<longrightarrow> out' ! j = out ! j)"
proof -
  let ?A = "rounded_arith rnd rnd32"
  let ?k = "inside_count T u (rng_states ! tid) (nat iterations)"
  from compute_pi_value [OF assms(3-5), of T ?A u] obtain rng' out' where
    run: "compute_pi T ?A u tid rng_states iterations out = Some (rng', out')"
    and val: "out' ! tid = f32 ?A (fdiv ?A (fmul ?A (of_pyint ?A 4) (of_pyint ?A (int ?k)))
        (of_pyint ?A iterations))"
    and rest: "\<forall>j<length out. j \<noteq> tid \<longrightarrow> out' ! j = out ! j"
    by (elim exE conjE) (rule that)
  have le: "?k \<le> nat iterations" by (rule inside_count_le)
  have four: "rnd 4 = 4" using assms(1) by (rule rounding_consts)
  have v: "out' ! tid =
      rnd32 (rnd (rnd (4 * rnd (of_int (int ?k))) / rnd (of_int iterations)))"
    using val by (simp add: rounded_arith_def four)
  have "int ?k \<le> iterations" using le assms(5) by linarith
  from rounded_quotient_bounds [OF assms(1,2) this assms(5)]
  have b: "0 \<le> out' ! tid \<and> out' ! tid \<le> 4"
    by (simp only: v)
  from run v le b rest show ?thesis by (intro exI conjI) (assumption | elim conjE)+
qed

theorem compute_pi_spec_witness:
  "\<exists>out'. compute_pi (rounded_arith (round_bits 24) (round_bits 24))
        (rounded_arith (round_bits 53) (round_bits 24)) counting_uniform
        1 [7, 0] 3 [0, 0, 0] = Some ([7, 6], out')
     \<and> out' = [0, 11184811 / 4194304, 0] \<and> 0 \<le> out' ! 1 \<and> out' ! 1 \<le> 4"
proof -
  have r64: "rounding (round_bits 53)" by (rule rounding_round_bits) simp
  have r32: "rounding (round_bits 24)" by (rule rounding_round_bits) simp
  have a1: "(1::nat) < length [7, 0 :: nat]" by simp
  have a2: "(1::nat) < length [0, 0, 0 :: rat]" by simp
  have a3: "(1::int) \<le> 3" by simp
  from compute_pi_spec [OF r64 r32 a1 a2 a3,
      of "rounded_arith (round_bits 24) (round_bits 24)" counting_uniform]
  obtain rng' out' where
    run: "compute_pi (rounded_arith (round_bits 24) (round_bits 24))
        (rounded_arith (round_bits 53) (round_bits 24)) counting_uniform
        1 [7, 0] 3 [0, 0, 0] = Some (rng', out')"
    and lo: "0 \<le> out' ! 1" and hi: "out' ! 1 \<le> 4"
    by (elim exE conjE) (rule that)
  have ev: "compute_pi (rounded_arith (round_bits 24) (round_bits 24))
      (rounded_arith (round_bits 53) (round_bits 24)) counting_uniform
      1 [7, 0] 3 [0, 0, 0] = Some ([7, 6], [0, 11184811 / 4194304, 0])"
    by code_simp
  from run ev have o: "out' = [0, 11184811 / 4194304, 0]" by simp
  show ?thesis
  proof (intro exI [of _ "[0, 11184811 / 4194304, 0]"] conjI)
    show "compute_pi (rounded_arith (round_bits 24) (round_bits 24))
        (rounded_arith (round_bits 53) (round_bits 24)) counting_uniform
        1 [7, 0] 3 [0, 0, 0] = Some ([7, 6], [0, 11184811 / 4194304, 0])" by (rule ev)
    show "[0, 11184811 / 4194304, 0] = [0, 11184811 / 4194304, 0 :: rat]" by (rule refl)
    from lo show "0 \<le> [0, 11184811 / 4194304, 0 :: rat] ! 1" unfolding o .
    from hi show "[0, 11184811 / 4194304, 0 :: rat] ! 1 \<le> 4" unfolding o .
  qed
qed

section \<open>Properties of the sum reduction\<close>

lemma foldl_sum_reduce:
  fixes a :: "'a::comm_monoid_add"
  shows "foldl sum_reduce a xs = a + sum_list xs"
  by (induction xs arbitrary: a) (simp_all add: sum_reduce_def add.assoc)

lemma reduce_tree_sum_list:
  fixes t :: "'a::comm_monoid_add reduction"
  shows "reduce_tree sum_reduce t = sum_list (leaves t)"
  by (induction t) (simp_all add: sum_reduce_def)

lemma leaves_nonempty: "leaves t \<noteq> []"
  by (induction t) simp_all

lemma sequential_sum_tree:
  fixes t :: "'a::comm_monoid_add reduction"
  assumes "mset (leaves t) = mset xs"
  shows "sequential_sum xs = Some (reduce_tree sum_reduce t)"
proof -
  have "xs \<noteq> []" using assms leaves_nonempty [of t] by auto
  then obtain v rest where xs: "xs = v # rest" by (cases xs) simp_all
  have "sum_list xs = sum_mset (mset xs)" by (simp add: sum_mset_sum_list)
  also have "\<dots> = sum_mset (mset (leaves t))" by (simp only: assms)
  also have "\<dots> = sum_list (leaves t)" by (simp add: sum_mset_sum_list)
  finally have "sum_list xs = reduce_tree sum_reduce t"
    by (simp add: reduce_tree_sum_list)
  then show ?thesis
    by (simp add: xs foldl_sum_reduce)
qed

lemma f64_add_exact:
  assumes "0 \<le> a" "0 \<le> b" "a + b < 2 ^ 53"
  shows "sum_reduce (F64 a) (F64 b) = F64 (a + b)"
proof -
  have "\<bar>a + b\<bar> < 2 ^ 53" using assms by simp
  then have "f64_round (a + b) = a + b" by (simp add: f64_round_def)
  moreover have "a + b < 2 ^ 1024" "- (2 ^ 1024) < a + b"
    using assms by simp_all
  ultimately show ?thesis by (simp add: sum_reduce_def)
qed

lemma f64_tree_exact:
  assumes "\<forall>v\<in>set (leaves t). 0 \<le> v" and "sum_list (leaves t) < 2 ^ 53"
  shows "reduce_tree sum_reduce (map_reduction F64 t) = F64 (sum_list (leaves t))"
  using assms
proof (induction t)
  case (Leaf a)
  then show ?case by simp
next
  case (Node l r)
  from Node.prems(1) have nonneg: "0 \<le> sum_list (leaves l)" "0 \<le> sum_list (leaves r)"
    by (simp_all add: sum_list_nonneg)
  with Node.prems(2) have small: "sum_list (leaves l) < 2 ^ 53" "sum_list (leaves r) < 2 ^ 53"
    by simp_all
  from Node.IH Node.prems(1) small have
    "reduce_tree sum_reduce (map_reduction F64 l) = F64 (sum_list (leaves l))"
    "reduce_tree sum_reduce (map_reduction F64 r) = F64 (sum_list (leaves r))"
    by simp_all
  moreover have "sum_list (leaves l) + sum_list (leaves r) < 2 ^ 53"
    using Node.prems(2) by simp
  ultimately show ?case
    using f64_add_exact [OF nonneg] by simp
qed

lemma f64_foldl_exact:
  assumes "0 \<le> a" and "\<forall>v\<in>set xs. 0 \<le> v" and "a + sum_list xs < 2 ^ 53"
  shows "foldl sum_reduce (F64 a) (map F64 xs) = F64 (a + sum_list xs)"
  using assms
proof (induction xs arbitrary: a)
  case Nil
  then show ?case by simp
next
  case (Cons v xs)
  from Cons.prems have v: "0 \<le> v" and rest: "\<forall>w\<in>set xs. 0 \<le> w" by simp_all
  from rest have "0 \<le> sum_list xs" by (simp add: sum_list_nonneg)
  with Cons.prems(3) have "a + v < 2 ^ 53" by simp
  with Cons.prems(1) v have step: "sum_reduce (F64 a) (F64 v) = F64 (a + v)"
    by (rule f64_add_exact)
  have "foldl sum_reduce (F64 (a + v)) (map F64 xs) = F64 (a + v + sum_list xs)"
    using Cons.prems v rest by (intro Cons.IH) simp_all
  with step show ?case by (simp add: add.assoc)
qed

lemma float64_add_commute: "sum_reduce x y = sum_reduce y (x :: float64)"
  by (cases x; cases y) (simp_all add: sum_reduce_def add.commute)

text \<open>
  Claim C7, as amended. On element types whose addition is exact or wraps around (the
  integer dtypes as machine words, unbounded integers, exact numbers) the combining
  operation of \<open>sum_reduce\<close> is associative and commutative, and reducing an array along
  any reduction tree over any order of its elements gives the sequential left-to-right
  sum. On float64 the operation is commutative, and the same holds for arrays of
  non-negative integers whose total is below \<open>2^53\<close>, such as the notebook's array.
\<close>

theorem sum_reduce_grouping:
  fixes a b c :: "'a::comm_monoid_add" and t :: "'a reduction" and u :: "int reduction"
  assumes "mset (leaves t) = mset xs"
    and "mset (leaves u) = mset ys" and "\<forall>v\<in>set ys. 0 \<le> v" and "sum_list ys < 2 ^ 53"
  shows "sum_reduce (sum_reduce a b) c = sum_reduce a (sum_reduce b c)
     \<and> sum_reduce a b = sum_reduce b a
     \<and> sequential_sum xs = Some (reduce_tree sum_reduce t)
     \<and> sum_reduce p q = sum_reduce q (p :: float64)
     \<and> sequential_sum (map F64 ys) = Some (reduce_tree sum_reduce (map_reduction F64 u))"
proof -
  have assoc: "sum_reduce (sum_reduce a b) c = sum_reduce a (sum_reduce b c)"
    by (simp add: sum_reduce_def add.assoc)
  have comm: "sum_reduce a b = sum_reduce b a"
    by (simp add: sum_reduce_def add.commute)
  have exact: "sequential_sum xs = Some (reduce_tree sum_reduce t)"
    using assms(1) by (rule sequential_sum_tree)
  have "ys \<noteq> []" using assms(2) leaves_nonempty [of u] by auto
  then obtain y rest where ys: "ys = y # rest" by (cases ys) simp_all
  have "foldl sum_reduce (F64 y) (map F64 rest) = F64 (y + sum_list rest)"
    using assms(3,4) by (intro f64_foldl_exact) (simp_all add: ys)
  then have seq: "sequential_sum (map F64 ys) = Some (F64 (sum_list ys))"
    by (simp add: ys)
  have set_eq: "set (leaves u) = set ys" using assms(2) by (rule mset_eq_setD)
  have "sum_list (leaves u) = sum_mset (mset (leaves u))" by (simp add: sum_mset_sum_list)
  also have "\<dots> = sum_mset (mset ys)" by (simp only: assms(2))
  also have "\<dots> = sum_list ys" by (simp add: sum_mset_sum_list)
  finally have sum_eq: "sum_list (leaves u) = sum_list ys" .
  have "reduce_tree sum_reduce (map_reduction F64 u) = F64 (sum_list (leaves u))"
    using assms(3,4) by (intro f64_tree_exact) (simp_all add: set_eq sum_eq)
  with seq sum_eq have floats:
    "sequential_sum (map F64 ys) = Some (reduce_tree sum_reduce (map_reduction F64 u))"
    by simp
  from assoc comm exact float64_add_commute [of p q] floats show ?thesis by blast
qed

theorem sum_reduce_grouping_witness:
  "sequential_sum [3, 1, 2 :: int32] = Some (reduce_tree sum_reduce (Node (Node (Leaf 1) (Leaf 2)) (Leaf 3)))
   \<and> sequential_sum (map F64 [2, 3, 1]) =
       Some (reduce_tree sum_reduce (map_reduction F64 (Node (Leaf 1) (Node (Leaf 2) (Leaf 3)))))
   \<and> sequential_sum (map F64 [2, 3, 1]) = Some (F64 6)"
proof -
  have a1: "mset (leaves (Node (Node (Leaf 1) (Leaf 2)) (Leaf (3 :: int32)))) = mset [3, 1, 2]"
    by simp
  have a2: "mset (leaves (Node (Leaf 1) (Node (Leaf 2) (Leaf (3 :: int))))) = mset [2, 3, 1]"
    by simp
  have a3: "\<forall>v\<in>set [2, 3, 1 :: int]. 0 \<le> v" by simp
  have a4: "sum_list [2, 3, 1 :: int] < 2 ^ 53" by simp
  note spec = sum_reduce_grouping [OF a1 a2 a3 a4, of 0 0 0 NaN NaN]
  from spec have ints: "sequential_sum [3, 1, 2 :: int32] =
      Some (reduce_tree sum_reduce (Node (Node (Leaf 1) (Leaf 2)) (Leaf 3)))"
    by (rule conjunct1 [OF conjunct2 [OF conjunct2]])
  from spec have floats: "sequential_sum (map F64 [2, 3, 1]) =
      Some (reduce_tree sum_reduce (map_reduction F64 (Node (Leaf 1) (Node (Leaf 2) (Leaf 3)))))"
    by (rule conjunct2 [OF conjunct2 [OF conjunct2 [OF conjunct2]]])
  have six: "sequential_sum (map F64 [2, 3, 1]) = Some (F64 6)" by code_simp
  from ints floats six show ?thesis by (intro conjI)
qed

text \<open>
  On float64 in general the operation is not associative and the grouping matters:
  \<open>(2^53 + 1) + 1 = 2^53\<close> and \<open>2^53 + (1 + 1) = 2^53 + 2\<close>.
\<close>

theorem sum_reduce_float64_counterexample:
  "sequential_sum [F64 9007199254740992, F64 1, F64 1]
     \<noteq> Some (reduce_tree sum_reduce
         (Node (Leaf (F64 9007199254740992)) (Node (Leaf (F64 1)) (Leaf (F64 1)))))
   \<and> sum_reduce (sum_reduce (F64 9007199254740992) (F64 1)) (F64 1)
     \<noteq> sum_reduce (F64 9007199254740992) (sum_reduce (F64 1) (F64 1))"
  by code_simp

section \<open>Properties of the thread counters\<close>

lemma filter_count_update:
  "t < length xs \<Longrightarrow> \<not> P (xs ! t) \<Longrightarrow> P v \<Longrightarrow>
   length (filter P (xs[t := v])) = Suc (length (filter P xs))"
proof (induction xs arbitrary: t)
  case Nil
  then show ?case by simp
next
  case (Cons x xs)
  then show ?case by (cases t) simp_all
qed

lemma safe_inv_step: "safe_inv s \<Longrightarrow> safe_inv (thread_counter_safe t s)"
proof -
  assume inv: "safe_inv s"
  obtain g pcs where s: "s = (g, pcs)" by (cases s)
  show ?thesis
  proof (cases "t < length pcs \<and> pcs ! t = NotStarted")
    case True
    then have cnt: "finished_count (pcs[t := Finished]) = Suc (finished_count pcs)"
      unfolding finished_count_def by (intro filter_count_update) simp_all
    with inv s True show ?thesis
      by (simp add: safe_inv_def thread_counter_safe_def atomic_add_def)
  next
    case False
    with inv s show ?thesis by (auto simp: thread_counter_safe_def)
  qed
qed

lemma safe_length_step: "length (snd (thread_counter_safe t s)) = length (snd s)"
  by (simp add: thread_counter_safe_def Let_def)

lemma safe_inv_launch: "safe_inv s \<Longrightarrow> safe_inv (launch thread_counter_safe schedule s)"
  by (induction schedule arbitrary: s) (simp_all add: launch_Nil launch_Cons safe_inv_step)

lemma safe_length_launch:
  "length (snd (launch thread_counter_safe schedule s)) = length (snd s)"
  by (induction schedule arbitrary: s) (simp_all add: launch_Nil launch_Cons safe_length_step)

lemma safe_final_counter:
  assumes "all_finished (launch thread_counter_safe schedule (initial_state nblocks nthread))"
  shows "fst (launch thread_counter_safe schedule (initial_state nblocks nthread)) =
     [of_nat (nblocks * nthread)]"
proof -
  let ?s = "launch thread_counter_safe schedule (initial_state nblocks nthread)"
  have "safe_inv (initial_state nblocks nthread)"
    by (simp add: safe_inv_def initial_state_def finished_count_def)
  then have inv: "safe_inv ?s" by (rule safe_inv_launch)
  have len: "length (snd ?s) = nblocks * nthread"
    by (simp add: safe_length_launch initial_state_def)
  from assms have "filter (\<lambda>p. p = Finished) (snd ?s) = snd ?s"
    by (simp add: all_finished_def)
  then have "finished_count (snd ?s) = nblocks * nthread"
    using len by (simp add: finished_count_def)
  with inv show ?thesis by (simp add: safe_inv_def)
qed


lemma replicate_update_front:
  assumes "k < n"
  shows "(replicate k a @ replicate (n - k) b)[k := c] =
     replicate k a @ c # replicate (n - Suc k) b"
proof -
  from assms have "n - k = Suc (n - Suc k)" by simp
  then have "replicate (n - k) b = b # replicate (n - Suc k) b"
    by (simp only: replicate_Suc)
  then show ?thesis by (simp add: list_update_append)
qed

lemma replicate_nth_front:
  assumes "k < n"
  shows "(replicate k a @ replicate (n - k) b) ! k = b"
  using assms by (simp add: nth_append)

lemma launch_snoc: "launch body (threads @ [t]) s = body t (launch body threads s)"
  by (simp add: launch_def)

lemma safe_run_all:
  "k \<le> n \<Longrightarrow>
   launch thread_counter_safe [0..<k] ([c], replicate n NotStarted) =
     ([c + of_nat k], replicate k Finished @ replicate (n - k) NotStarted)"
proof (induction k)
  case 0
  then show ?case by (simp add: launch_Nil)
next
  case (Suc k)
  then have k: "k < n" by simp
  have "launch thread_counter_safe [0..<Suc k] ([c], replicate n NotStarted) =
      thread_counter_safe k ([c + of_nat k], replicate k Finished @ replicate (n - k) NotStarted)"
    using Suc by (simp add: launch_snoc)
  also have "\<dots> = ([c + of_nat k + 1],
      replicate k Finished @ Finished # replicate (n - Suc k) NotStarted)"
    using k by (simp add: thread_counter_safe_def atomic_add_def replicate_update_front
        replicate_nth_front)
  also have "\<dots> = ([c + of_nat (Suc k)],
      replicate (Suc k) Finished @ replicate (n - Suc k) NotStarted)"
    by (simp add: replicate_app_Cons_same)
  finally show ?case .
qed

lemma racy_read_all:
  "k \<le> n \<Longrightarrow>
   launch thread_counter_race_condition [0..<k] ([c], replicate n NotStarted) =
     ([c], replicate k (Loaded c) @ replicate (n - k) NotStarted)"
proof (induction k)
  case 0
  then show ?case by (simp add: launch_Nil)
next
  case (Suc k)
  then have k: "k < n" by simp
  have "launch thread_counter_race_condition [0..<Suc k] ([c], replicate n NotStarted) =
      thread_counter_race_condition k
        ([c], replicate k (Loaded c) @ replicate (n - k) NotStarted)"
    using Suc by (simp add: launch_snoc)
  also have "\<dots> = ([c], replicate k (Loaded c) @ Loaded c # replicate (n - Suc k) NotStarted)"
    using k by (simp add: thread_counter_race_condition_def replicate_update_front
        replicate_nth_front)
  also have "\<dots> = ([c], replicate (Suc k) (Loaded c) @ replicate (n - Suc k) NotStarted)"
    by (simp add: replicate_app_Cons_same)
  finally show ?case .
qed

lemma racy_write_all:
  "k \<le> n \<Longrightarrow>
   launch thread_counter_race_condition [0..<k] ([d], replicate n (Loaded c)) =
     ([if k = 0 then d else c + 1], replicate k Finished @ replicate (n - k) (Loaded c))"
proof (induction k)
  case 0
  then show ?case by (simp add: launch_Nil)
next
  case (Suc k)
  then have k: "k < n" by simp
  have "launch thread_counter_race_condition [0..<Suc k] ([d], replicate n (Loaded c)) =
      thread_counter_race_condition k
        ([if k = 0 then d else c + 1], replicate k Finished @ replicate (n - k) (Loaded c))"
    using Suc by (simp add: launch_snoc)
  also have "\<dots> = ([c + 1], replicate k Finished @ Finished # replicate (n - Suc k) (Loaded c))"
    using k by (simp add: thread_counter_race_condition_def replicate_update_front
        replicate_nth_front)
  also have "\<dots> = ([if Suc k = 0 then d else c + 1],
      replicate (Suc k) Finished @ replicate (n - Suc k) (Loaded c))"
    by (simp add: replicate_app_Cons_same)
  finally show ?case .
qed

lemma launch_append: "launch body (ts @ us) s = launch body us (launch body ts s)"
  by (simp add: launch_def)

lemma racy_lost_updates:
  assumes "0 < nblocks * nthread"
  shows "launch thread_counter_race_condition
       ([0..<nblocks * nthread] @ [0..<nblocks * nthread]) (initial_state nblocks nthread) =
     ([1], replicate (nblocks * nthread) Finished)"
proof -
  let ?n = "nblocks * nthread"
  have "launch thread_counter_race_condition [0..<?n] (initial_state nblocks nthread) =
      ([0], replicate ?n (Loaded 0))"
    using racy_read_all [of ?n ?n 0] by (simp add: initial_state_def)
  moreover have "launch thread_counter_race_condition [0..<?n] ([0], replicate ?n (Loaded 0)) =
      ([1], replicate ?n Finished)"
    using racy_write_all [of ?n ?n 0 0] assms by simp
  ultimately show ?thesis by (simp add: launch_append)
qed

lemma safe_complete_schedule:
  "launch thread_counter_safe [0..<nblocks * nthread] (initial_state nblocks nthread) =
     ([of_nat (nblocks * nthread)], replicate (nblocks * nthread) Finished)"
  using safe_run_all [of "nblocks * nthread" "nblocks * nthread" 0]
  by (simp add: initial_state_def)

text \<open>
  Claim C4. Launched with 64 blocks of 64 threads on a counter that starts at zero,
  \<open>thread_counter_safe\<close> ends with the counter at exactly 4096 under every schedule that
  lets all threads finish (and there is such a schedule), each increment being one
  indivisible step. \<open>thread_counter_race_condition\<close>, whose increment is a read and a
  separately scheduled write, has a schedule that lets all threads finish with the
  counter different from 4096: when every thread reads before any writes, the counter
  ends at 1.
\<close>

theorem atomic_counter_spec:
  "(\<forall>schedule.
      all_finished (launch thread_counter_safe schedule (initial_state 64 64)) \<longrightarrow>
      fst (launch thread_counter_safe schedule (initial_state 64 64)) = [4096])
   \<and> all_finished (launch thread_counter_safe [0..<64 * 64] (initial_state 64 64))
   \<and> (\<exists>schedule.
        all_finished (launch thread_counter_race_condition schedule (initial_state 64 64))
        \<and> fst (launch thread_counter_race_condition schedule (initial_state 64 64)) \<noteq> [4096])"
proof (intro conjI allI impI)
  fix schedule
  assume "all_finished (launch thread_counter_safe schedule (initial_state 64 64))"
  then have "fst (launch thread_counter_safe schedule (initial_state 64 64)) =
      [of_nat (64 * 64)]"
    by (rule safe_final_counter)
  then show "fst (launch thread_counter_safe schedule (initial_state 64 64)) = [4096]"
    by simp
next
  show "all_finished (launch thread_counter_safe [0..<64 * 64] (initial_state 64 64))"
    by (simp only: safe_complete_schedule all_finished_def) simp
next
  have "launch thread_counter_race_condition ([0..<64 * 64] @ [0..<64 * 64])
      (initial_state 64 64) = ([1], replicate (64 * 64) Finished)"
    by (rule racy_lost_updates) simp
  then have "all_finished (launch thread_counter_race_condition
        ([0..<64 * 64] @ [0..<64 * 64]) (initial_state 64 64))
      \<and> fst (launch thread_counter_race_condition
        ([0..<64 * 64] @ [0..<64 * 64]) (initial_state 64 64)) \<noteq> [4096]"
    by (simp add: all_finished_def)
  then show "\<exists>schedule.
        all_finished (launch thread_counter_race_condition schedule (initial_state 64 64))
        \<and> fst (launch thread_counter_race_condition schedule (initial_state 64 64)) \<noteq> [4096]"
    by blast
qed

theorem atomic_counter_spec_witness:
  "all_finished (launch thread_counter_safe [0..<64 * 64] (initial_state 64 64))
   \<and> fst (launch thread_counter_safe [0..<64 * 64] (initial_state 64 64)) = [4096]"
  using atomic_counter_spec by blast

end
